theory Spec2Isabelle
  imports Complex_Main
begin

section \<open>Nearest-subspace classifiers in RCDT / RSCDT space\<close>

text \<open>
  A shallow embedding of \<^verbatim>\<open>my_classification/rcdt_ns.py\<close> (class \<^verbatim>\<open>MY_RDCT_NS\<close>, the
  unsigned variant) and \<^verbatim>\<open>my_classification/RSCDT_NS.py\<close> (class \<^verbatim>\<open>RSCDT_NS\<close>, the
  signed variant).

  Floating-point numbers are idealised as real numbers. An n-dimensional array is its
  shape together with its entries in row-major order, as numpy stores it. Every place
  where numpy or Python raises is a branch that returns an \<open>error\<close>. The two external
  collaborators, the forward transform of pytranskit and the singular value
  decomposition of numpy, are parameters of the functions that call them.
\<close>

subsection \<open>Arrays\<close>

datatype error = ValueError | IndexError | LinAlgError

record ndarray =
  shape :: "nat list"
  data :: "real list"

definition wf_nd :: "ndarray \<Rightarrow> bool" where
  "wf_nd a = (length (data a) = prod_list (shape a))"

text \<open>\<^verbatim>\<open>np.ones(sh)\<close>, \<^verbatim>\<open>np.sum(a)\<close>, \<^verbatim>\<open>a + c\<close> and \<^verbatim>\<open>a / c\<close> for a scalar \<open>c\<close>.\<close>

definition np_ones :: "nat list \<Rightarrow> ndarray" where
  "np_ones sh = \<lparr>shape = sh, data = replicate (prod_list sh) 1\<rparr>"

definition np_sum :: "ndarray \<Rightarrow> real" where
  "np_sum a = sum_list (data a)"

definition add_scalar :: "ndarray \<Rightarrow> real \<Rightarrow> ndarray" where
  "add_scalar a c = \<lparr>shape = shape a, data = map (\<lambda>x. x + c) (data a)\<rparr>"

definition div_scalar :: "ndarray \<Rightarrow> real \<Rightarrow> ndarray" where
  "div_scalar a c = \<lparr>shape = shape a, data = map (\<lambda>x. x / c) (data a)\<rparr>"

text \<open>
  \<^verbatim>\<open>np.array(xs)\<close> of a list of arrays: the empty list gives the one-dimensional empty
  array of shape \<open>(0,)\<close>; arrays of one shape are stacked along a new first axis; arrays
  of different shapes are refused.
\<close>

fun np_array :: "ndarray list \<Rightarrow> error + ndarray" where
  "np_array [] = Inr \<lparr>shape = [0], data = []\<rparr>"
| "np_array (x # xs) =
     (if list_all (\<lambda>y. shape y = shape x) xs
      then Inr \<lparr>shape = Suc (length xs) # shape x, data = concat (map data (x # xs))\<rparr>
      else Inl ValueError)"

text \<open>
  \<^verbatim>\<open>np.concatenate(xs)\<close> along axis 0: at least one array, none of them zero-dimensional,
  all of one shape behind the first axis.
\<close>

fun np_concatenate :: "ndarray list \<Rightarrow> error + ndarray" where
  "np_concatenate [] = Inl ValueError"
| "np_concatenate (x # xs) =
     (if list_all (\<lambda>y. shape y \<noteq> [] \<and> tl (shape y) = tl (shape x)) (x # xs)
      then Inr \<lparr>shape = sum_list (map (\<lambda>y. hd (shape y)) (x # xs)) # tl (shape x),
                data = concat (map data (x # xs))\<rparr>
      else Inl ValueError)"

text \<open>\<^verbatim>\<open>np.atleast_2d\<close> and \<^verbatim>\<open>np.vstack\<close>, which concatenates what \<^verbatim>\<open>atleast_2d\<close> returns.\<close>

definition atleast_2d :: "ndarray \<Rightarrow> ndarray" where
  "atleast_2d a =
     (case shape a of
        [] \<Rightarrow> \<lparr>shape = [1, 1], data = data a\<rparr>
      | [k] \<Rightarrow> \<lparr>shape = [1, k], data = data a\<rparr>
      | _ \<Rightarrow> a)"

definition np_vstack :: "ndarray list \<Rightarrow> error + ndarray" where
  "np_vstack xs = np_concatenate (map atleast_2d xs)"

text \<open>
  \<^verbatim>\<open>np.array_split(X, n, axis=0)\<close> on a batch, seen as the list of its items along the
  first axis: \<open>n\<close> consecutive sections, the first \<open>len mod n\<close> of them one item longer;
  \<open>n = 0\<close> is refused (``number sections must be larger than 0'').
\<close>

fun chop :: "nat list \<Rightarrow> 'a list \<Rightarrow> 'a list list" where
  "chop [] xs = []"
| "chop (k # ks) xs = take k xs # chop ks (drop k xs)"

definition section_sizes :: "nat \<Rightarrow> nat \<Rightarrow> nat list" where
  "section_sizes Ntotal n =
     replicate (Ntotal mod n) (Ntotal div n + 1) @ replicate (n - Ntotal mod n) (Ntotal div n)"

definition array_split :: "'a list \<Rightarrow> nat \<Rightarrow> error + 'a list list" where
  "array_split X n =
     (if n = 0 then Inl ValueError else Inr (chop (section_sizes (length X) n) X))"

text \<open>The results of a list of calls, or the first error among them.\<close>

fun collect :: "(error + 'a) list \<Rightarrow> error + 'a list" where
  "collect [] = Inr []"
| "collect (r # rs) =
     (case r of
        Inl e \<Rightarrow> Inl e
      | Inr x \<Rightarrow> (case collect rs of Inl e \<Rightarrow> Inl e | Inr xs \<Rightarrow> Inr (x # xs)))"

subsection \<open>Module constants and classifier state\<close>

definition eps :: real where
  "eps = 1 / 1000000"

definition x0_range :: "real list" where
  "x0_range = [0, 1]"

definition x_range :: "real list" where
  "x_range = [0, 1]"

definition np_linspace :: "real \<Rightarrow> real \<Rightarrow> nat \<Rightarrow> real list" where
  "np_linspace start stop num =
     map (\<lambda>k. start + real k * ((stop - start) / real (num - 1))) [0..<num]"

text \<open>\<^verbatim>\<open>Rdown = 1; theta = np.linspace(0, 176, 45 // Rdown)\<close> in the signed module.\<close>

definition RSCDT_theta :: "real list" where
  "RSCDT_theta = np_linspace 0 176 (45 div 1)"

text \<open>\<^verbatim>\<open>Rdown = 4; theta = np.linspace(0, 176, 180 // Rdown)\<close> in the unsigned module.\<close>

definition RCDT_theta :: "real list" where
  "RCDT_theta = np_linspace 0 176 (180 div 4)"

text \<open>Both classes have the same five fields, set by \<^verbatim>\<open>__init__\<close>.\<close>

record classifier =
  num_classes :: int
  thetas :: "real list"
  rm_edge :: bool
  subspaces :: "ndarray list"
  len_subspace :: nat

definition init :: "int \<Rightarrow> real list \<Rightarrow> bool \<Rightarrow> classifier" where
  "init n ths rm =
     \<lparr>num_classes = n, thetas = ths, rm_edge = rm, subspaces = [], len_subspace = 0\<rparr>"

subsection \<open>The forward transform and its callers\<close>

text \<open>
  One invocation of the external forward transform: the angles its object was constructed
  with (\<open>None\<close> when the constructor is called without arguments, so that the library's
  own default applies) and the five arguments of \<^verbatim>\<open>forward\<close>.
\<close>

record forward_call =
  fc_angles :: "real list option"
  fc_x0_range :: "real list"
  fc_template :: ndarray
  fc_x_range :: "real list"
  fc_image :: ndarray
  fc_rm_edge :: bool

text \<open>\<^verbatim>\<open>MY_RDCT_NS.fun_rcdt_single\<close>: the call it makes, and its result.\<close>

definition rcdt_call :: "classifier \<Rightarrow> ndarray \<Rightarrow> forward_call" where
  "rcdt_call st I =
     (let template = np_ones (shape I)
      in \<lparr>fc_angles = Some (thetas st),
          fc_x0_range = x0_range,
          fc_template = div_scalar template (np_sum template),
          fc_x_range = x_range,
          fc_image = div_scalar I (np_sum I),
          fc_rm_edge = rm_edge st\<rparr>)"

definition fun_rcdt_single :: "(forward_call \<Rightarrow> ndarray) \<Rightarrow> classifier \<Rightarrow> ndarray \<Rightarrow> ndarray" where
  "fun_rcdt_single forward st I = forward (rcdt_call st I)"

text \<open>
  \<^verbatim>\<open>MY_RDCT_NS.fun_rcdt_batch\<close>. A batch is the list of its images \<^verbatim>\<open>data[j, :, :]\<close>,
  \<open>j\<close> from 0 to \<^verbatim>\<open>data.shape[0]\<close>.
\<close>

definition fun_rcdt_batch ::
  "(forward_call \<Rightarrow> ndarray) \<Rightarrow> classifier \<Rightarrow> ndarray list \<Rightarrow> error + ndarray" where
  "fun_rcdt_batch forward st batch =
     np_array (map (\<lambda>I. fun_rcdt_single forward st (add_scalar I eps)) batch)"

text \<open>
  \<^verbatim>\<open>MY_RDCT_NS.rcdt_parallel\<close>; \<open>cpu_count\<close> is what \<^verbatim>\<open>mp.cpu_count()\<close> returns.
  \<^verbatim>\<open>mp.Pool(n)\<close> refuses \<open>n < 1\<close>, and \<^verbatim>\<open>pl.map\<close> returns the results in the order of
  the sections.
\<close>

definition rcdt_parallel ::
  "(forward_call \<Rightarrow> ndarray) \<Rightarrow> nat \<Rightarrow> classifier \<Rightarrow> ndarray list \<Rightarrow> error + ndarray" where
  "rcdt_parallel forward cpu_count st X =
     (let n_cpu = min cpu_count (length X)
      in case array_split X n_cpu of
           Inl e \<Rightarrow> Inl e
         | Inr splits \<Rightarrow>
             if n_cpu < 1 then Inl ValueError
             else (case collect (map (fun_rcdt_batch forward st) splits) of
                     Inl e \<Rightarrow> Inl e
                   | Inr dataRCDT \<Rightarrow> np_vstack dataRCDT))"

text \<open>
  \<^verbatim>\<open>RSCDT_NS.fun_rscdt_single\<close>: the transform object is constructed without angles, the
  ranges are local lists, the flag is the literal \<^verbatim>\<open>False\<close>, and of the five results
  only the first is returned.
\<close>

definition rscdt_call :: "classifier \<Rightarrow> ndarray \<Rightarrow> forward_call" where
  "rscdt_call st I0 =
     \<lparr>fc_angles = None,
      fc_x0_range = [0, 1],
      fc_template = np_ones (shape I0),
      fc_x_range = [0, 1],
      fc_image = I0,
      fc_rm_edge = False\<rparr>"

definition fun_rscdt_single ::
  "(forward_call \<Rightarrow> ndarray \<times> 'r) \<Rightarrow> classifier \<Rightarrow> ndarray \<Rightarrow> ndarray" where
  "fun_rscdt_single forward st I0 = fst (forward (rscdt_call st I0))"

definition fun_rscdt_batch ::
  "(forward_call \<Rightarrow> ndarray \<times> 'r) \<Rightarrow> classifier \<Rightarrow> ndarray list \<Rightarrow> error + ndarray" where
  "fun_rscdt_batch forward st batch =
     np_array (map (\<lambda>I. fun_rscdt_single forward st (add_scalar I eps)) batch)"

definition rscdt_parallel ::
  "(forward_call \<Rightarrow> ndarray \<times> 'r) \<Rightarrow> classifier \<Rightarrow> ndarray list \<Rightarrow> error + ndarray" where
  "rscdt_parallel forward st X = fun_rscdt_batch forward st X"

subsection \<open>Deformation samples\<close>

text \<open>
  \<^verbatim>\<open>add_trans_samples\<close>, the same text in both classes. \<^verbatim>\<open>v[np.newaxis]\<close> puts a new
  axis of length one in front; \<^verbatim>\<open>np.repeat(a, k, axis=0)\<close> repeats every item of the first
  axis \<open>k\<close> times; \<^verbatim>\<open>shape[1]\<close> of an array with fewer than two axes is an index error.
\<close>

definition np_1d :: "real list \<Rightarrow> ndarray" where
  "np_1d v = \<lparr>shape = [length v], data = v\<rparr>"

definition newaxis :: "ndarray \<Rightarrow> ndarray" where
  "newaxis a = \<lparr>shape = 1 # shape a, data = data a\<rparr>"

definition nd_items :: "ndarray \<Rightarrow> real list list" where
  "nd_items a =
     (let sz = prod_list (tl (shape a))
      in map (\<lambda>j. take sz (drop (j * sz) (data a))) [0..<hd (shape a)])"

definition np_repeat0 :: "ndarray \<Rightarrow> nat \<Rightarrow> ndarray" where
  "np_repeat0 a k =
     \<lparr>shape = (hd (shape a) * k) # tl (shape a),
      data = concat (concat (map (replicate k) (nd_items a)))\<rparr>"

definition add_trans_samples :: "classifier \<Rightarrow> ndarray \<Rightarrow> error + ndarray" where
  "add_trans_samples st features =
     (let v1 = map (\<lambda>t. cos (t * pi / 180)) (thetas st);
          v2 = map (\<lambda>t. sin (t * pi / 180)) (thetas st)
      in if length (shape features) < 2 then Inl IndexError
         else let v1r = np_repeat0 (newaxis (np_1d v1)) (shape features ! 1);
                  v2r = np_repeat0 (newaxis (np_1d v2)) (shape features ! 1)
              in np_concatenate [features, newaxis v1r, newaxis v2r])"

subsection \<open>Fitting\<close>

text \<open>
  \<^verbatim>\<open>X[Ytrain == class_idx]\<close>: a boolean mask along the first axis, which must be as long
  as that axis. \<^verbatim>\<open>a.reshape(a.shape[0], -1)\<close>: the unknown dimension cannot be inferred
  when the known one is zero.
\<close>

definition bool_index :: "ndarray \<Rightarrow> bool list \<Rightarrow> error + ndarray" where
  "bool_index a bs =
     (if shape a = [] \<or> length bs \<noteq> hd (shape a) then Inl IndexError
      else Inr \<lparr>shape = length (filter id bs) # tl (shape a),
                data = concat (map snd (filter fst (zip bs (nd_items a))))\<rparr>)"

definition reshape_rows :: "ndarray \<Rightarrow> error + ndarray" where
  "reshape_rows a =
     (case shape a of
        [] \<Rightarrow> Inl IndexError
      | n # _ \<Rightarrow>
          if n = 0 \<or> prod_list (shape a) mod n \<noteq> 0 then Inl ValueError
          else Inr \<lparr>shape = [n, prod_list (shape a) div n], data = data a\<rparr>)"

text \<open>Lines 62 to 67 of \<^verbatim>\<open>fit\<close>: the flattened matrix of one class.\<close>

definition class_flat ::
  "classifier \<Rightarrow> ndarray \<Rightarrow> int list \<Rightarrow> bool \<Rightarrow> nat \<Rightarrow> error + ndarray" where
  "class_flat st X Ytrain no_deform_model class_idx =
     (case bool_index X (map (\<lambda>y. y = int class_idx) Ytrain) of
        Inl e \<Rightarrow> Inl e
      | Inr class_data \<Rightarrow>
          if no_deform_model then reshape_rows class_data
          else (case add_trans_samples st class_data of
                  Inl e \<Rightarrow> Inl e
                | Inr class_data_trans \<Rightarrow> reshape_rows class_data_trans))"

text \<open>
  \<^verbatim>\<open>np.cumsum\<close>, \<^verbatim>\<open>np.max\<close> (refused on an empty array) and the indices
  \<^verbatim>\<open>np.where(c >= t)[0]\<close>.
\<close>

fun cumsum_from :: "real \<Rightarrow> real list \<Rightarrow> real list" where
  "cumsum_from acc [] = []"
| "cumsum_from acc (x # xs) = (acc + x) # cumsum_from (acc + x) xs"

definition np_cumsum :: "real list \<Rightarrow> real list" where
  "np_cumsum s = cumsum_from 0 s"

fun np_max :: "real list \<Rightarrow> error + real" where
  "np_max [] = Inl ValueError"
| "np_max (x # xs) = Inr (fold max xs x)"

definition np_where_ge :: "real list \<Rightarrow> real \<Rightarrow> nat list" where
  "np_where_ge c t = filter (\<lambda>i. t \<le> c ! i) [0..<length c]"

text \<open>
  Lines 70 to 73 of \<^verbatim>\<open>fit\<close>. Taking element 0 of an empty index array is an index
  error. Where the maximum is zero numpy's quotients are \<open>nan\<close> or \<open>-inf\<close> and HOL's are
  zero: none of them reaches the threshold, so the outcome is the same.
\<close>

definition max_basis_of :: "real list \<Rightarrow> error + nat" where
  "max_basis_of s =
     (case np_max (np_cumsum s) of
        Inl e \<Rightarrow> Inl e
      | Inr m \<Rightarrow>
          (case np_where_ge (map (\<lambda>x. x / m) (np_cumsum s)) (99 / 100) of
             [] \<Rightarrow> Inl IndexError
           | i # _ \<Rightarrow> Inr (i + 1)))"

text \<open>\<^verbatim>\<open>a[:n]\<close>: the first \<open>n\<close> items along the first axis, or all of them if there are fewer.\<close>

definition slice_rows :: "ndarray \<Rightarrow> nat \<Rightarrow> error + ndarray" where
  "slice_rows a n =
     (case shape a of
        [] \<Rightarrow> Inl IndexError
      | r # sh \<Rightarrow> Inr \<lparr>shape = min n r # sh, data = take (min n r * prod_list sh) (data a)\<rparr>)"

text \<open>
  The body of the loop of \<^verbatim>\<open>RSCDT_NS.fit\<close> for one class. \<open>svd\<close> stands for
  \<^verbatim>\<open>LA.svd(flat, full_matrices=False)\<close> and returns \<open>(u, s, vh)\<close>. The state is returned
  together with the exception that ended the call, if one did: an exception leaves the
  object as it was at that moment.
\<close>

definition fit_class ::
  "(ndarray \<Rightarrow> error + ndarray \<times> real list \<times> ndarray) \<Rightarrow> ndarray \<Rightarrow> int list \<Rightarrow> bool \<Rightarrow>
     nat \<Rightarrow> classifier \<Rightarrow> classifier \<times> error option" where
  "fit_class svd X Ytrain no_deform_model class_idx st =
     (case class_flat st X Ytrain no_deform_model class_idx of
        Inl e \<Rightarrow> (st, Some e)
      | Inr flat \<Rightarrow>
          (case svd flat of
             Inl e \<Rightarrow> (st, Some e)
           | Inr (u, s, vh) \<Rightarrow>
               (case max_basis_of s of
                  Inl e \<Rightarrow> (st, Some e)
                | Inr max_basis \<Rightarrow>
                    (let st1 = (if max_basis > len_subspace st
                                then st\<lparr>len_subspace := max_basis\<rparr> else st)
                     in case slice_rows vh (hd (shape flat)) of
                          Inl e \<Rightarrow> (st1, Some e)
                        | Inr basis \<Rightarrow>
                            (st1\<lparr>subspaces := subspaces st1 @ [basis]\<rparr>, None)))))"

fun fit_loop ::
  "(ndarray \<Rightarrow> error + ndarray \<times> real list \<times> ndarray) \<Rightarrow> ndarray \<Rightarrow> int list \<Rightarrow> bool \<Rightarrow>
     nat list \<Rightarrow> classifier \<Rightarrow> classifier \<times> error option" where
  "fit_loop svd X Ytrain no_deform_model [] st = (st, None)"
| "fit_loop svd X Ytrain no_deform_model (class_idx # rest) st =
     (case fit_class svd X Ytrain no_deform_model class_idx st of
        (st', Some e) \<Rightarrow> (st', Some e)
      | (st', None) \<Rightarrow> fit_loop svd X Ytrain no_deform_model rest st')"

text \<open>\<^verbatim>\<open>range(self.num_classes)\<close>, empty when the number is not positive.\<close>

definition class_range :: "classifier \<Rightarrow> nat list" where
  "class_range st = [0..<nat (num_classes st)]"

definition RSCDT_NS_fit ::
  "(forward_call \<Rightarrow> ndarray \<times> 'r) \<Rightarrow> (ndarray \<Rightarrow> error + ndarray \<times> real list \<times> ndarray) \<Rightarrow>
     classifier \<Rightarrow> ndarray list \<Rightarrow> int list \<Rightarrow> bool \<Rightarrow> classifier \<times> error option" where
  "RSCDT_NS_fit forward svd st Xtrain Ytrain no_deform_model =
     (case rscdt_parallel forward st Xtrain of
        Inl e \<Rightarrow> (st, Some e)
      | Inr Xrscdt \<Rightarrow> fit_loop svd Xrscdt Ytrain no_deform_model (class_range st) st)"

text \<open>
  \<^verbatim>\<open>MY_RDCT_NS.fit\<close>: the loop computes \<open>flat\<close> for every class and prints its type; the
  decomposition, the rank and the two assignments to \<open>self\<close> are commented out in the
  source, so the loop has no effect but the exceptions of computing \<open>flat\<close>.
\<close>

fun fit_loop_unsigned ::
  "classifier \<Rightarrow> ndarray \<Rightarrow> int list \<Rightarrow> bool \<Rightarrow> nat list \<Rightarrow> error option" where
  "fit_loop_unsigned st X Ytrain no_deform_model [] = None"
| "fit_loop_unsigned st X Ytrain no_deform_model (class_idx # rest) =
     (case class_flat st X Ytrain no_deform_model class_idx of
        Inl e \<Rightarrow> Some e
      | Inr flat \<Rightarrow> fit_loop_unsigned st X Ytrain no_deform_model rest)"

definition MY_RDCT_NS_fit ::
  "(forward_call \<Rightarrow> ndarray) \<Rightarrow> nat \<Rightarrow> classifier \<Rightarrow> ndarray list \<Rightarrow> int list \<Rightarrow> bool \<Rightarrow>
     classifier \<times> error option" where
  "MY_RDCT_NS_fit forward cpu_count st Xtrain Ytrain no_deform_model =
     (case rcdt_parallel forward cpu_count st Xtrain of
        Inl e \<Rightarrow> (st, Some e)
      | Inr Xrcdt \<Rightarrow> (st, fit_loop_unsigned st Xrcdt Ytrain no_deform_model (class_range st)))"

subsection \<open>Prediction\<close>

text \<open>
  Two-dimensional arrays: the entry \<open>a[i, j]\<close>, \<^verbatim>\<open>a.T\<close>, \<^verbatim>\<open>a @ b\<close> (refused unless the
  inner dimensions agree), \<^verbatim>\<open>a - b\<close> for arrays of one shape, and
  \<^verbatim>\<open>LA.norm(a, axis=1)\<close>.
\<close>

definition at2 :: "ndarray \<Rightarrow> nat \<Rightarrow> nat \<Rightarrow> real" where
  "at2 a i j = data a ! (i * (shape a ! 1) + j)"

definition table2 :: "nat \<Rightarrow> nat \<Rightarrow> (nat \<Rightarrow> nat \<Rightarrow> real) \<Rightarrow> ndarray" where
  "table2 m n f = \<lparr>shape = [m, n], data = concat (map (\<lambda>i. map (f i) [0..<n]) [0..<m])\<rparr>"

definition transpose2 :: "ndarray \<Rightarrow> ndarray" where
  "transpose2 a = table2 (shape a ! 1) (shape a ! 0) (\<lambda>j i. at2 a i j)"

definition matmul :: "ndarray \<Rightarrow> ndarray \<Rightarrow> error + ndarray" where
  "matmul a b =
     (if length (shape a) = 2 \<and> length (shape b) = 2 \<and> shape a ! 1 = shape b ! 0
      then Inr (table2 (shape a ! 0) (shape b ! 1)
                  (\<lambda>i j. sum_list (map (\<lambda>k. at2 a i k * at2 b k j) [0..<shape a ! 1])))
      else Inl ValueError)"

definition nd_sub :: "ndarray \<Rightarrow> ndarray \<Rightarrow> error + ndarray" where
  "nd_sub a b =
     (if shape a = shape b
      then Inr \<lparr>shape = shape a, data = map (\<lambda>(x, y). x - y) (zip (data a) (data b))\<rparr>
      else Inl ValueError)"

definition norm_axis1 :: "ndarray \<Rightarrow> real list" where
  "norm_axis1 a =
     map (\<lambda>i. sqrt (sum_list (map (\<lambda>j. (at2 a i j)\<^sup>2) [0..<shape a ! 1]))) [0..<shape a ! 0]"

text \<open>
  The body of the loop of \<^verbatim>\<open>predict\<close> for one class, on the reference path
  (\<^verbatim>\<open>use_gpu=False\<close>): \<^verbatim>\<open>self.subspaces[class_idx]\<close> is an index error past the end of
  the list. Stored bases are two-dimensional, being the \<open>vh\<close> of a decomposition; the
  model refuses every other rank at \<^verbatim>\<open>basis[:self.len_subspace, :]\<close>, where numpy refuses
  the ranks below two.
\<close>

definition class_residual :: "classifier \<Rightarrow> ndarray \<Rightarrow> nat \<Rightarrow> error + real list" where
  "class_residual st X class_idx =
     (if length (subspaces st) \<le> class_idx then Inl IndexError
      else if length (shape (subspaces st ! class_idx)) \<noteq> 2 then Inl IndexError
      else (case slice_rows (subspaces st ! class_idx) (len_subspace st) of
              Inl e \<Rightarrow> Inl e
            | Inr basis \<Rightarrow>
                (case matmul X (transpose2 basis) of
                   Inl e \<Rightarrow> Inl e
                 | Inr proj \<Rightarrow>
                     (case matmul proj basis of
                        Inl e \<Rightarrow> Inl e
                      | Inr projR \<Rightarrow>
                          (case nd_sub projR X of
                             Inl e \<Rightarrow> Inl e
                           | Inr diff \<Rightarrow> Inr (norm_axis1 diff))))))"

text \<open>\<^verbatim>\<open>np.argmin\<close> of a non-empty vector: a scan that keeps the first minimum.\<close>

fun argmin_scan :: "nat \<Rightarrow> real \<Rightarrow> nat \<Rightarrow> real list \<Rightarrow> nat" where
  "argmin_scan best v i [] = best"
| "argmin_scan best v i (x # xs) =
     (if x < v then argmin_scan i x (Suc i) xs else argmin_scan best v (Suc i) xs)"

fun np_argmin :: "real list \<Rightarrow> nat" where
  "np_argmin [] = 0"
| "np_argmin (x # xs) = argmin_scan 0 x 1 xs"

text \<open>
  \<^verbatim>\<open>predict\<close> from the flattening on, the same text in both classes. \<^verbatim>\<open>np.stack\<close> of an
  empty list is refused; \<^verbatim>\<open>np.argmin(D, axis=0)\<close> takes the argmin of every column.
\<close>

definition predict_core :: "classifier \<Rightarrow> ndarray \<Rightarrow> error + nat list" where
  "predict_core st Xfeatures =
     (case reshape_rows Xfeatures of
        Inl e \<Rightarrow> Inl e
      | Inr X \<Rightarrow>
          (case collect (map (class_residual st X) (class_range st)) of
             Inl e \<Rightarrow> Inl e
           | Inr D \<Rightarrow>
               if D = [] then Inl ValueError
               else Inr (map (\<lambda>i. np_argmin (map (\<lambda>d. d ! i) D)) [0..<shape X ! 0])))"

definition RSCDT_NS_predict ::
  "(forward_call \<Rightarrow> ndarray \<times> 'r) \<Rightarrow> classifier \<Rightarrow> ndarray list \<Rightarrow> error + nat list" where
  "RSCDT_NS_predict forward st Xtest =
     (case rscdt_parallel forward st Xtest of
        Inl e \<Rightarrow> Inl e
      | Inr Xrscdt \<Rightarrow> predict_core st Xrscdt)"

definition MY_RDCT_NS_predict ::
  "(forward_call \<Rightarrow> ndarray) \<Rightarrow> nat \<Rightarrow> classifier \<Rightarrow> ndarray list \<Rightarrow> error + nat list" where
  "MY_RDCT_NS_predict forward cpu_count st Xtest =
     (case rcdt_parallel forward cpu_count st Xtest of
        Inl e \<Rightarrow> Inl e
      | Inr Xrcdt \<Rightarrow> predict_core st Xrcdt)"

subsection \<open>Binary64 arithmetic\<close>

text \<open>
  numpy computes on IEEE 754 binary64 numbers. A value is a finite number, an infinity or
  a NaN. The sign of a zero is not kept. Among the operations below it matters to a
  division by zero only, which is taken as a division by the positive zero: the divisor
  in \<^verbatim>\<open>fit\<close> is a maximum of running sums of singular values, which are not negative.
\<close>

datatype f64 = Fin real | PInf | NInf | NaN

text \<open>
  Rounding to nearest, ties to even. \<open>round_even\<close> rounds to an integer; \<open>quantum x\<close> is the
  distance between neighbouring binary64 numbers at \<open>x\<close>, \<open>2 ^ (e - 52)\<close> for the exponent \<open>e\<close> of
  \<open>x\<close>, which is not taken below \<open>-1022\<close> (the subnormal numbers share one spacing);
  \<open>rnd x\<close> is the nearest multiple of the quantum and \<open>fl x\<close> the binary64 result, an
  infinity from \<open>2 ^ 1024\<close> on. \<open>is_double\<close> holds of the finite binary64 numbers.
\<close>

definition round_even :: "real \<Rightarrow> int" where
  "round_even x =
     (if x - of_int \<lfloor>x\<rfloor> < 1 / 2 then \<lfloor>x\<rfloor>
      else if 1 / 2 < x - of_int \<lfloor>x\<rfloor> then \<lfloor>x\<rfloor> + 1
      else if even \<lfloor>x\<rfloor> then \<lfloor>x\<rfloor> else \<lfloor>x\<rfloor> + 1)"

definition quantum :: "real \<Rightarrow> real" where
  "quantum x = 2 powr of_int (max \<lfloor>log 2 \<bar>x\<bar>\<rfloor> (- 1022) - 52)"

definition rnd :: "real \<Rightarrow> real" where
  "rnd x = (if x = 0 then 0 else of_int (round_even (x / quantum x)) * quantum x)"

definition fl :: "real \<Rightarrow> f64" where
  "fl x = (if 2 ^ 1024 \<le> rnd x then PInf else if rnd x \<le> - (2 ^ 1024) then NInf else Fin (rnd x))"

definition is_double :: "real \<Rightarrow> bool" where
  "is_double x = (rnd x = x \<and> \<bar>x\<bar> < 2 ^ 1024)"

text \<open>
  Addition, division, the comparison \<^verbatim>\<open>>=\<close> (false when an operand is a NaN) and
  \<^verbatim>\<open>np.maximum\<close>, which hands on a NaN.
\<close>

fun fadd :: "f64 \<Rightarrow> f64 \<Rightarrow> f64" where
  "fadd (Fin x) (Fin y) = fl (x + y)"
| "fadd NaN _ = NaN"
| "fadd _ NaN = NaN"
| "fadd PInf NInf = NaN"
| "fadd NInf PInf = NaN"
| "fadd PInf _ = PInf"
| "fadd _ PInf = PInf"
| "fadd NInf _ = NInf"
| "fadd _ NInf = NInf"

fun fdiv :: "f64 \<Rightarrow> f64 \<Rightarrow> f64" where
  "fdiv (Fin x) (Fin y) =
     (if y = 0 then (if x = 0 then NaN else if 0 < x then PInf else NInf) else fl (x / y))"
| "fdiv NaN _ = NaN"
| "fdiv _ NaN = NaN"
| "fdiv (Fin x) _ = Fin 0"
| "fdiv PInf (Fin y) = (if 0 \<le> y then PInf else NInf)"
| "fdiv NInf (Fin y) = (if 0 \<le> y then NInf else PInf)"
| "fdiv _ _ = NaN"

fun fge :: "f64 \<Rightarrow> f64 \<Rightarrow> bool" where
  "fge (Fin x) (Fin y) = (y \<le> x)"
| "fge NaN _ = False"
| "fge _ NaN = False"
| "fge PInf _ = True"
| "fge _ NInf = True"
| "fge _ _ = False"

definition fmaximum :: "f64 \<Rightarrow> f64 \<Rightarrow> f64" where
  "fmaximum a b = (if a = NaN then a else if b = NaN then b else if fge a b then a else b)"




text \<open>
  Lines 70 to 73 of \<^verbatim>\<open>RSCDT_NS.fit\<close> as numpy evaluates them. \<^verbatim>\<open>np.cumsum\<close> copies the
  first element and adds the others to the running sum one at a time, rounding each
  sum; \<^verbatim>\<open>np.max\<close> is refused on an empty array; every quotient is rounded and compared
  with the binary64 number that the literal \<^verbatim>\<open>0.99\<close> denotes.
\<close>

fun cumsum_f64_from :: "f64 \<Rightarrow> f64 list \<Rightarrow> f64 list" where
  "cumsum_f64_from acc [] = []"
| "cumsum_f64_from acc (x # xs) = fadd acc x # cumsum_f64_from (fadd acc x) xs"

fun np_cumsum_f64 :: "f64 list \<Rightarrow> f64 list" where
  "np_cumsum_f64 [] = []"
| "np_cumsum_f64 (x # xs) = x # cumsum_f64_from x xs"

fun np_max_f64 :: "f64 list \<Rightarrow> error + f64" where
  "np_max_f64 [] = Inl ValueError"
| "np_max_f64 (x # xs) = Inr (fold (\<lambda>y m. fmaximum m y) xs x)"

definition max_basis_f64 :: "f64 list \<Rightarrow> error + nat" where
  "max_basis_f64 s =
     (case np_max_f64 (np_cumsum_f64 s) of
        Inl e \<Rightarrow> Inl e
      | Inr m \<Rightarrow>
          (case filter (\<lambda>i. fge (fdiv (np_cumsum_f64 s ! i) m) (fl (99 / 100)))
                  [0..<length (np_cumsum_f64 s)] of
             [] \<Rightarrow> Inl IndexError
           | i # _ \<Rightarrow> Inr (i + 1)))"

subsection \<open>Prediction in binary64\<close>











subsection \<open>The specification's notions\<close>

text \<open>
  The effective rank in the specification's words: the smallest prefix length whose
  cumulative sum of singular values, divided by the sum of all of them, reaches 0.99.
\<close>

definition spec_effective_rank :: "real list \<Rightarrow> nat" where
  "spec_effective_rank s = (LEAST r. 99 / 100 \<le> sum_list (take r s) / sum_list s)"

text \<open>
  The same in binary64: the sum of a prefix is taken left to right with every partial sum
  rounded, the share is the rounded quotient of two such sums, and the threshold is the
  binary64 number nearest to 0.99.
\<close>

fun fsum :: "f64 list \<Rightarrow> f64" where
  "fsum [] = Fin 0"
| "fsum (x # xs) = foldl fadd x xs"

definition spec_rank_f64 :: "f64 list \<Rightarrow> nat" where
  "spec_rank_f64 s = (LEAST r. fge (fdiv (fsum (take r s)) (fsum s)) (fl (99 / 100)))"


subsection \<open>Instances of the external collaborators for concrete runs\<close>

text \<open>
  A transform that returns the image it is given as its coefficient array (for the signed
  variant with no further results), and a decomposition that knows one matrix, the
  \<open>3 \<times> 2\<close> matrix with rows \<open>(1, 0)\<close>, \<open>(0, 1)\<close>, \<open>(0, 0)\<close>, whose reduced decomposition
  is itself, \<open>(1, 1)\<close> and the \<open>2 \<times> 2\<close> identity.
\<close>

definition image_as_coefficients :: "forward_call \<Rightarrow> ndarray" where
  "image_as_coefficients c = fc_image c"

definition image_as_signed_coefficients :: "forward_call \<Rightarrow> ndarray \<times> unit" where
  "image_as_signed_coefficients c = (fc_image c, ())"

definition unit_columns :: ndarray where
  "unit_columns = \<lparr>shape = [3, 2], data = [1, 0, 0, 1, 0, 0]\<rparr>"

definition identity2 :: ndarray where
  "identity2 = \<lparr>shape = [2, 2], data = [1, 0, 0, 1]\<rparr>"

definition svd_of_unit_columns :: "ndarray \<Rightarrow> error + ndarray \<times> real list \<times> ndarray" where
  "svd_of_unit_columns flat =
     (if flat = unit_columns then Inr (unit_columns, [1, 1], identity2) else Inl LinAlgError)"

text \<open>Three images of one row and two columns; with \<open>eps\<close> added they are the rows above.\<close>

definition three_images :: "ndarray list" where
  "three_images =
     [\<lparr>shape = [1, 2], data = [1 - eps, - eps]\<rparr>,
      \<lparr>shape = [1, 2], data = [- eps, 1 - eps]\<rparr>,
      \<lparr>shape = [1, 2], data = [- eps, - eps]\<rparr>]"

text \<open>The coefficient arrays of the three images, stacked.\<close>

definition three_features :: ndarray where
  "three_features = \<lparr>shape = [3, 1, 2], data = [1, 0, 0, 1, 0, 0]\<rparr>"

text \<open>Two images with positive entries, for the unsigned variant.\<close>

definition two_images :: "ndarray list" where
  "two_images = [\<lparr>shape = [1, 2], data = [1, 3]\<rparr>, \<lparr>shape = [1, 2], data = [2, 2]\<rparr>]"

text \<open>Their coefficient arrays under \<open>image_as_coefficients\<close>, stacked.\<close>

definition two_features :: ndarray where
  "two_features =
     \<lparr>shape = [2, 1, 2], data = [1000001 / 4000002, 3000001 / 4000002, 1 / 2, 1 / 2]\<rparr>"

text \<open>
  The residual in the specification's words, for sample \<open>i\<close> of the matrix \<open>X\<close> and a basis
  \<open>B\<close> of which the first \<open>R\<close> rows are used: the Euclidean norm of
  \<open>X\<^sub>i \<cdot> B\<^sup>T \<cdot> B - X\<^sub>i\<close>, written out entry by entry.
\<close>

definition spec_residual :: "ndarray \<Rightarrow> ndarray \<Rightarrow> nat \<Rightarrow> nat \<Rightarrow> real" where
  "spec_residual X B R i =
     sqrt (\<Sum>j<shape X ! 1.
       ((\<Sum>r<R. (\<Sum>l<shape X ! 1. at2 X i l * at2 B r l) * at2 B r j) - at2 X i j)\<^sup>2)"

text \<open>The number of rows of basis \<open>k\<close> that prediction uses.\<close>

definition rows_used :: "classifier \<Rightarrow> nat \<Rightarrow> nat" where
  "rows_used st k = min (len_subspace st) (shape (subspaces st ! k) ! 0)"

text \<open>
  A classifier with the one-row bases \<open>(1, 0)\<close> and \<open>(0, 1)\<close>, and three samples of two
  features: \<open>(1, 0)\<close>, \<open>(0, 1)\<close> and \<open>(1, 1)\<close>, the last at the same distance from both.
\<close>

definition two_axes :: classifier where
  "two_axes =
     \<lparr>num_classes = 2, thetas = [0, 90], rm_edge = False,
      subspaces = [\<lparr>shape = [1, 2], data = [1, 0]\<rparr>, \<lparr>shape = [1, 2], data = [0, 1]\<rparr>],
      len_subspace = 1\<rparr>"

definition three_samples :: ndarray where
  "three_samples = \<lparr>shape = [3, 1, 2], data = [1, 0, 0, 1, 1, 1]\<rparr>"








section \<open>Properties\<close>

subsection \<open>Arguments of the forward transform\<close>

lemma sum_list_map_divide: "sum_list (map (\<lambda>x. x / c) xs) = sum_list xs / (c::real)"
  by (induction xs) (simp_all add: add_divide_distrib)

lemma np_sum_ones: "np_sum (np_ones sh) = real (prod_list sh)"
  by (simp add: np_sum_def np_ones_def sum_list_replicate)

lemma np_sum_div_scalar: "np_sum (div_scalar a c) = np_sum a / c"
  by (simp add: np_sum_def div_scalar_def sum_list_map_divide)

text \<open>
  Claim C8. For every forward transform, \<^verbatim>\<open>fun_rcdt_single\<close> returns what the transform
  returns on the configured angles, the ranges \<open>[0, 1]\<close>, the all-ones template divided by
  its sum (the number of pixels), the image divided by its sum, and the configured
  edge-trim flag: template and image each sum to one. \<^verbatim>\<open>fun_rscdt_single\<close> returns the
  first result of the transform on the all-ones template and the image as they are.
\<close>

theorem single_transform_arguments:
  assumes "wf_nd I" and "np_sum I \<noteq> 0"
  shows "fun_rcdt_single forward st I
           = forward \<lparr>fc_angles = Some (thetas st), fc_x0_range = [0, 1],
                      fc_template = div_scalar (np_ones (shape I)) (real (prod_list (shape I))),
                      fc_x_range = [0, 1], fc_image = div_scalar I (np_sum I),
                      fc_rm_edge = rm_edge st\<rparr>
       \<and> np_sum (div_scalar (np_ones (shape I)) (real (prod_list (shape I)))) = 1
       \<and> np_sum (div_scalar I (np_sum I)) = 1
       \<and> fun_rscdt_single forward' st I
           = fst (forward' \<lparr>fc_angles = None, fc_x0_range = [0, 1],
                            fc_template = np_ones (shape I), fc_x_range = [0, 1],
                            fc_image = I, fc_rm_edge = False\<rparr>)
       \<and> fc_template (rcdt_call st I) = div_scalar (np_ones (shape I)) (real (prod_list (shape I)))
       \<and> np_sum (fc_template (rcdt_call st I)) = 1
       \<and> fc_image (rcdt_call st I) = div_scalar I (np_sum I)
       \<and> np_sum (fc_image (rcdt_call st I)) = 1
       \<and> fc_template (rscdt_call st I) = np_ones (shape I)
       \<and> fc_image (rscdt_call st I) = I"
proof -
  have "data I \<noteq> []"
    using assms(2) by (auto simp: np_sum_def)
  with assms(1) have nz: "prod_list (shape I) \<noteq> 0"
    by (cases "data I") (auto simp: wf_nd_def)
  show ?thesis
    using nz assms(2)
    by (simp add: fun_rcdt_single_def fun_rscdt_single_def rcdt_call_def rscdt_call_def Let_def
        np_sum_ones np_sum_div_scalar x0_range_def x_range_def)
qed

theorem single_transform_arguments_witness:
  "wf_nd \<lparr>shape = [1, 2], data = [1, 3]\<rparr> \<and> np_sum \<lparr>shape = [1, 2], data = [1, 3]\<rparr> \<noteq> 0
   \<and> fun_rcdt_single fc_template (init 2 [0, 90] False) \<lparr>shape = [1, 2], data = [1, 3]\<rparr>
        = \<lparr>shape = [1, 2], data = [1 / 2, 1 / 2]\<rparr>
   \<and> fun_rcdt_single fc_image (init 2 [0, 90] False) \<lparr>shape = [1, 2], data = [1, 3]\<rparr>
        = \<lparr>shape = [1, 2], data = [1 / 4, 3 / 4]\<rparr>
   \<and> fun_rscdt_single (\<lambda>c. (fc_template c, fc_image c)) (init 2 [0, 90] False)
          \<lparr>shape = [1, 2], data = [1, 3]\<rparr>
        = \<lparr>shape = [1, 2], data = [1, 1]\<rparr>
   \<and> fun_rscdt_single (\<lambda>c. (fc_image c, fc_template c)) (init 2 [0, 90] False)
          \<lparr>shape = [1, 2], data = [1, 3]\<rparr>
        = \<lparr>shape = [1, 2], data = [1, 3]\<rparr>"
proof -
  let ?I = "\<lparr>shape = [1, 2], data = [1, 3]\<rparr>"
  have h: "wf_nd ?I" "np_sum ?I \<noteq> 0" by (simp_all add: wf_nd_def np_sum_def)
  note a = single_transform_arguments [OF h, where st = "init 2 [0, 90] False"
      and forward = fc_template and forward' = "\<lambda>c. (fc_template c, fc_image c)"]
  note b = single_transform_arguments [OF h, where st = "init 2 [0, 90] False"
      and forward = fc_image and forward' = "\<lambda>c. (fc_image c, fc_template c)"]
  show ?thesis
    using h a b by (simp add: np_sum_def div_scalar_def np_ones_def numeral_2_eq_2)
qed

text \<open>
  Claim C4 says that every invocation of the forward transform uses the angles and the
  edge-trim flag of the classifier, in both variants. The unsigned variant does. The
  signed variant constructs its transform without angles and passes the literal
  \<^verbatim>\<open>False\<close>: whatever \<open>thetas\<close> and \<open>rm_edge\<close> the classifier holds, the call and its
  result are the same.
\<close>

theorem signed_call_ignores_configuration:
  "fc_angles (rscdt_call st I0) = None \<and> fc_rm_edge (rscdt_call st I0) = False
   \<and> fun_rscdt_single forward (st\<lparr>thetas := ths, rm_edge := rm\<rparr>) I0
        = fun_rscdt_single forward st I0
   \<and> fc_angles (rcdt_call st I) = Some (thetas st) \<and> fc_rm_edge (rcdt_call st I) = rm_edge st"
  by (simp add: rscdt_call_def rcdt_call_def fun_rscdt_single_def Let_def)

subsection \<open>The batch transform\<close>

text \<open>
  Claim C5 says that the batch transform of an empty batch returns an empty result without
  raising, in both variants. The signed variant returns the empty array. The unsigned
  variant asks \<^verbatim>\<open>np.array_split\<close> for \<open>min cpu_count 0 = 0\<close> sections, which is refused,
  whatever the number of processors.
\<close>

theorem empty_batch_unsigned_raises:
  "rcdt_parallel forward cpu_count st [] = Inl ValueError
   \<and> rscdt_parallel forward' st' [] = Inr \<lparr>shape = [0], data = []\<rparr>"
  by (simp add: rcdt_parallel_def array_split_def rscdt_parallel_def fun_rscdt_batch_def)

subsection \<open>The effective rank\<close>

lemma length_cumsum_from: "length (cumsum_from a s) = length s"
  by (induction s arbitrary: a) simp_all

lemma nth_cumsum_from:
  "i < length s \<Longrightarrow> cumsum_from a s ! i = a + sum_list (take (Suc i) s)"
proof (induction s arbitrary: a i)
  case Nil
  then show ?case by simp
next
  case (Cons x xs)
  show ?case
  proof (cases i)
    case 0
    then show ?thesis by simp
  next
    case (Suc j)
    with Cons.prems have "j < length xs" by simp
    from Cons.IH [OF this, of "a + x"] Suc show ?thesis by simp
  qed
qed

lemma sum_list_take_le:
  assumes "\<forall>x\<in>set s. (0::real) \<le> x"
  shows "sum_list (take k s) \<le> sum_list s"
proof -
  have "sum_list s = sum_list (take k s) + sum_list (drop k s)"
    by (metis append_take_drop_id sum_list_append)
  moreover have "0 \<le> sum_list (drop k s)"
    using assms by (intro sum_list_nonneg) (auto dest: in_set_dropD)
  ultimately show ?thesis by simp
qed

lemma sum_list_pos_real:
  assumes "\<forall>x\<in>set s. (0::real) \<le> x" and "\<exists>x\<in>set s. 0 < x"
  shows "0 < sum_list s"
  using assms
proof (induction s)
  case Nil
  then show ?case by simp
next
  case (Cons a s)
  have nn: "0 \<le> sum_list s" using Cons.prems(1) by (intro sum_list_nonneg) simp
  show ?case
  proof (cases "0 < a")
    case True
    with nn show ?thesis by simp
  next
    case False
    with Cons.prems have "\<exists>x\<in>set s. 0 < x" by auto
    with Cons.IH Cons.prems(1) have "0 < sum_list s" by simp
    moreover have "0 \<le> a" using Cons.prems(1) by simp
    ultimately show ?thesis by simp
  qed
qed

lemma np_max_eq_Max: "xs \<noteq> [] \<Longrightarrow> np_max xs = Inr (Max (set xs))"
proof (cases xs)
  case Nil
  assume "xs \<noteq> []"
  with Nil show ?thesis by simp
next
  case (Cons a list)
  show ?thesis
    unfolding Cons using Max.set_eq_fold [of a list] by simp
qed

lemma np_max_cumsum:
  assumes "\<forall>x\<in>set s. (0::real) \<le> x" and "s \<noteq> []"
  shows "np_max (np_cumsum s) = Inr (sum_list s)"
proof -
  let ?c = "np_cumsum s"
  have len: "length ?c = length s" by (simp add: np_cumsum_def length_cumsum_from)
  with assms(2) have ne: "?c \<noteq> []" by auto
  have nth: "\<And>i. i < length s \<Longrightarrow> ?c ! i = sum_list (take (Suc i) s)"
    by (simp add: np_cumsum_def nth_cumsum_from)
  have "Max (set ?c) = sum_list s"
  proof (rule Max_eqI)
    show "finite (set ?c)" by simp
  next
    fix y assume "y \<in> set ?c"
    then obtain i where "i < length s" "y = ?c ! i"
      using len by (metis in_set_conv_nth)
    then show "y \<le> sum_list s"
      using nth sum_list_take_le [OF assms(1)] by simp
  next
    have "length s - 1 < length s" using assms(2) by (cases s) simp_all
    then have "?c ! (length s - 1) = sum_list s"
      using nth [of "length s - 1"] assms(2) by (cases s) simp_all
    then show "sum_list s \<in> set ?c"
      using len \<open>length s - 1 < length s\<close> by (metis nth_mem)
  qed
  with ne show ?thesis by (simp add: np_max_eq_Max)
qed

lemma filter_upt_first:
  "filter P [0..<n] = i # rest \<Longrightarrow> P i \<and> i < n \<and> (\<forall>j<i. \<not> P j)"
proof (induction n arbitrary: rest)
  case 0
  then show ?case by simp
next
  case (Suc n)
  show ?case
  proof (cases "filter P [0..<n]")
    case Nil
    then have none: "\<forall>j<n. \<not> P j"
      by (auto simp: filter_empty_conv)
    from Suc.prems Nil have "i = n \<and> P n"
      by (auto split: if_splits)
    with none show ?thesis by auto
  next
    case (Cons k ks)
    with Suc.prems have "i = k"
      by (auto split: if_splits)
    with Cons have "filter P [0..<n] = i # ks" by simp
    from Suc.IH [OF this] show ?thesis by auto
  qed
qed

lemma filter_upt_nonempty: "j < n \<Longrightarrow> P j \<Longrightarrow> filter P [0..<n] \<noteq> []"
  by (auto simp: filter_empty_conv)

text \<open>
  Over the reals, for singular values that are non-negative and not all zero: the maximum
  of the cumulative sums is the sum of all values, so dividing by it is dividing by the
  total, and the first index whose share reaches \<open>99/100\<close> gives the smallest prefix length
  whose share of the total reaches \<open>99/100\<close>.
\<close>

lemma exact_rank_is_smallest_prefix:
  assumes nonneg: "\<forall>x\<in>set s. 0 \<le> x" and pos: "\<exists>x\<in>set s. 0 < x"
  shows "np_max (np_cumsum s) = Inr (sum_list s)
       \<and> max_basis_of s = Inr (spec_effective_rank s)
       \<and> 1 \<le> spec_effective_rank s \<and> spec_effective_rank s \<le> length s"
proof -
  let ?tot = "sum_list s"
  let ?P = "\<lambda>r. 99 / 100 \<le> sum_list (take r s) / ?tot"
  let ?Q = "\<lambda>i. 99 / 100 \<le> map (\<lambda>x. x / ?tot) (np_cumsum s) ! i"
  from pos have ne: "s \<noteq> []" by auto
  have tot: "0 < ?tot" by (rule sum_list_pos_real [OF nonneg pos])
  have mx: "np_max (np_cumsum s) = Inr ?tot" by (rule np_max_cumsum [OF nonneg ne])
  have len: "length (np_cumsum s) = length s"
    by (simp add: np_cumsum_def length_cumsum_from)
  have Q: "?Q i = ?P (Suc i)" if "i < length s" for i
    using that len by (simp add: np_cumsum_def nth_cumsum_from)
  have last: "?Q (length s - 1)"
    using ne tot Q [of "length s - 1"] by (cases s) simp_all
  have "filter ?Q [0..<length s] \<noteq> []"
    using ne last by (intro filter_upt_nonempty [of "length s - 1"]) (cases s, simp_all)
  then obtain i rest where flt: "filter ?Q [0..<length s] = i # rest"
    by (cases "filter ?Q [0..<length s]") auto
  from filter_upt_first [OF flt] have Qi: "?Q i" and ilt: "i < length s"
    and least: "\<forall>j<i. \<not> ?Q j" by auto
  have mb: "max_basis_of s = Inr (Suc i)"
    using mx flt len by (simp add: max_basis_of_def np_where_ge_def)
  have PSi: "?P (Suc i)" using Qi Q [OF ilt] by simp
  have notP: "\<not> ?P r" if "r < Suc i" for r
  proof (cases r)
    case 0
    then show ?thesis by simp
  next
    case (Suc j)
    with that have "j < i" by simp
    with least have "\<not> ?Q j" by blast
    moreover have "j < length s" using \<open>j < i\<close> ilt by simp
    ultimately show ?thesis using Q [of j] Suc by simp
  qed
  have "spec_effective_rank s = Suc i"
    unfolding spec_effective_rank_def
  proof (rule Least_equality)
    show "?P (Suc i)" by (rule PSi)
  next
    fix y assume "?P y"
    with notP [of y] show "Suc i \<le> y" by (meson not_less)
  qed
  with mx mb ilt show ?thesis by simp
qed

subsection \<open>Rounding to binary64\<close>

lemma round_even_of_int: "round_even (of_int n) = n"
  by (simp add: round_even_def)

lemma round_even_bounds: "\<lfloor>x\<rfloor> \<le> round_even x \<and> round_even x \<le> \<lfloor>x\<rfloor> + 1"
  by (simp add: round_even_def)

lemma round_even_mono:
  assumes "x \<le> y"
  shows "round_even x \<le> round_even y"
proof (cases "\<lfloor>x\<rfloor> < \<lfloor>y\<rfloor>")
  case True
  have "round_even x \<le> \<lfloor>x\<rfloor> + 1" using round_even_bounds by simp
  also have "\<dots> \<le> \<lfloor>y\<rfloor>" using True by simp
  also have "\<dots> \<le> round_even y" using round_even_bounds by simp
  finally show ?thesis .
next
  case False
  moreover have "\<lfloor>x\<rfloor> \<le> \<lfloor>y\<rfloor>" using assms by (rule floor_mono)
  ultimately have eq: "\<lfloor>x\<rfloor> = \<lfloor>y\<rfloor>" by simp
  show ?thesis
    using assms eq by (auto simp: round_even_def)
qed

lemma pow2_pos: "0 < (2::real) powr of_int k"
  by simp

lemma pow2_add: "(2::real) powr of_int (a + b) = 2 powr of_int a * 2 powr of_int b"
  by (simp add: powr_add)

lemma pow2_mono: "a \<le> b \<Longrightarrow> (2::real) powr of_int a \<le> 2 powr of_int b"
  by (simp add: powr_mono)

lemma pow2_52: "(2::real) powr of_int 52 = 2 ^ 52"
  using powr_realpow [of 2 52] by simp

lemma pow2_split: "(2::real) powr of_int e = 2 ^ 52 * 2 powr of_int (e - 52)"
proof -
  have "(2::real) powr of_int e = 2 powr of_int (52 + (e - 52))" by simp
  also have "\<dots> = 2 powr of_int 52 * 2 powr of_int (e - 52)" by (rule pow2_add)
  finally show ?thesis by (simp only: pow2_52)
qed

lemma pow2_Suc: "(2::real) powr of_int (e + 1) = 2 * 2 powr of_int e"
  by (simp add: powr_add)

lemma floor_log2_bounds:
  assumes "0 < x"
  shows "2 powr of_int \<lfloor>log 2 x\<rfloor> \<le> x \<and> x < 2 powr of_int (\<lfloor>log 2 x\<rfloor> + 1)"
  using floor_log_eq_powr_iff [of x 2 "\<lfloor>log 2 x\<rfloor>"] assms by simp

lemma floor_log2_eq:
  assumes "2 powr of_int e \<le> x" and "x < 2 powr of_int (e + 1)"
  shows "\<lfloor>log 2 x\<rfloor> = e"
proof -
  have "0 < x" using assms(1) pow2_pos [of e] by linarith
  then show ?thesis
    using floor_log_eq_powr_iff [of x 2 e] assms by simp
qed

lemma quantum_normal:
  assumes "2 powr of_int e \<le> \<bar>x\<bar>" and "\<bar>x\<bar> < 2 powr of_int (e + 1)" and "- 1022 \<le> e"
  shows "quantum x = 2 powr of_int (e - 52)"
  using floor_log2_eq [OF assms(1,2)] assms(3) by (simp add: quantum_def max_def)

lemma quantum_subnormal:
  assumes "x \<noteq> 0" and "\<bar>x\<bar> < 2 powr of_int (- 1022)"
  shows "quantum x = 2 powr of_int (- 1074)"
proof -
  have pos: "0 < \<bar>x\<bar>" using assms(1) by simp
  have "\<lfloor>log 2 \<bar>x\<bar>\<rfloor> < - 1022"
  proof (rule ccontr)
    assume "\<not> \<lfloor>log 2 \<bar>x\<bar>\<rfloor> < - 1022"
    then have "- 1022 \<le> \<lfloor>log 2 \<bar>x\<bar>\<rfloor>" by simp
    then have "(2::real) powr of_int (- 1022) \<le> 2 powr of_int \<lfloor>log 2 \<bar>x\<bar>\<rfloor>" by (rule pow2_mono)
    also have "\<dots> \<le> \<bar>x\<bar>" using floor_log2_bounds [OF pos] by simp
    finally show False using assms(2) by simp
  qed
  then show ?thesis by (simp add: quantum_def max_def)
qed

lemma quantum_pos: "0 < quantum x"
  by (simp add: quantum_def)


lemma round_even_nonneg: "0 \<le> x \<Longrightarrow> 0 \<le> round_even x"
  using round_even_mono [of 0 x] round_even_of_int [of 0] by simp

lemma rnd_nonneg: "0 \<le> x \<Longrightarrow> 0 \<le> rnd x"
  using quantum_pos [of x] round_even_nonneg [of "x / quantum x"]
  by (simp add: rnd_def)

lemma floor_log2_ge:
  assumes "2 powr of_int k \<le> x"
  shows "k \<le> \<lfloor>log 2 x\<rfloor>"
proof (rule ccontr)
  assume "\<not> k \<le> \<lfloor>log 2 x\<rfloor>"
  then have "\<lfloor>log 2 x\<rfloor> + 1 \<le> k" by simp
  then have le: "(2::real) powr of_int (\<lfloor>log 2 x\<rfloor> + 1) \<le> 2 powr of_int k" by (rule pow2_mono)
  have "0 < x" using assms pow2_pos [of k] by linarith
  from floor_log2_bounds [OF this] have "x < 2 powr of_int (\<lfloor>log 2 x\<rfloor> + 1)" by (rule conjunct2)
  from this le have "x < 2 powr of_int k" by (rule less_le_trans)
  with assms show False by simp
qed

lemma scaled_less:
  assumes "0 < x"
  shows "x / quantum x < 2 ^ 53"
proof -
  let ?e = "\<lfloor>log 2 x\<rfloor>"
  let ?E = "max ?e (- 1022)"
  have q: "quantum x = 2 powr of_int (?E - 52)" using assms by (simp add: quantum_def)
  have qpos: "0 < quantum x" by (rule quantum_pos)
  from floor_log2_bounds [OF assms] have up: "x < 2 powr of_int (?e + 1)" by (rule conjunct2)
  have "(2::real) powr of_int (?e + 1) \<le> 2 powr of_int (?E + 1)" by (rule pow2_mono) simp
  with up have "x < 2 powr of_int (?E + 1)" by (rule less_le_trans)
  also have "\<dots> = 2 * 2 powr of_int ?E" by (rule pow2_Suc)
  also have "\<dots> = 2 * (2 ^ 52 * quantum x)" by (simp only: pow2_split [of ?E] q)
  finally have "x < 2 ^ 53 * quantum x" by simp
  then show "x / quantum x < 2 ^ 53" using qpos by (simp add: pos_divide_less_eq)
qed

lemma scaled_ge:
  assumes "2 powr of_int (- 1022) \<le> x"
  shows "2 ^ 52 \<le> x / quantum x"
proof -
  let ?e = "\<lfloor>log 2 x\<rfloor>"
  have pos: "0 < x" using assms pow2_pos [of "- 1022"] by linarith
  have "- 1022 \<le> ?e" using assms by (rule floor_log2_ge)
  then have mx: "max ?e (- 1022) = ?e" by (rule max_absorb1)
  have ab: "\<bar>x\<bar> = x" using pos by simp
  have q: "quantum x = 2 powr of_int (?e - 52)" unfolding quantum_def ab mx ..
  have qpos: "0 < quantum x" by (rule quantum_pos)
  have "2 ^ 52 * quantum x = 2 powr of_int ?e" by (simp only: pow2_split [of ?e] q)
  also have "\<dots> \<le> x" using floor_log2_bounds [OF pos] by (rule conjunct1)
  finally show "2 ^ 52 \<le> x / quantum x" using qpos by (simp add: pos_le_divide_eq)
qed


lemma quantum_eq:
  "quantum x = 2 powr of_int (max \<lfloor>log 2 \<bar>x\<bar>\<rfloor> (- 1022) - 52)"
  by (simp add: quantum_def)

lemma pow2_int: "0 \<le> d \<Longrightarrow> (2::real) powr of_int d = of_int (2 ^ nat d)"
  using powr_realpow [of 2 "nat d"] by simp

lemma rnd_grid:
  assumes n: "0 \<le> n" "n < 2 ^ 53" and k: "- 1074 \<le> k"
  shows "rnd (of_int n * 2 powr of_int k) = of_int n * 2 powr of_int k"
proof (cases "n = 0")
  case True
  then show ?thesis by (simp add: rnd_def)
next
  case False
  define y :: real where "y = of_int n * 2 powr of_int k"
  define E where "E = max \<lfloor>log 2 \<bar>y\<bar>\<rfloor> (- 1022)"
  from False n have npos: "0 < n" by simp
  then have ypos: "0 < y" by (simp add: y_def)
  then have ab: "\<bar>y\<bar> = y" by simp
  have "real_of_int n < 2 ^ 53" using n(2) by (metis of_int_less_numeral_power_cancel_iff)
  then have "y < 2 ^ 53 * 2 powr of_int k" by (simp add: y_def)
  also have "\<dots> = 2 * (2 ^ 52 * 2 powr of_int (k + 52 - 52))" by simp
  also have "\<dots> = 2 * 2 powr of_int (k + 52)" by (simp only: pow2_split [of "k + 52", symmetric])
  also have "\<dots> = 2 powr of_int (k + 52 + 1)" by (simp only: pow2_Suc)
  finally have ylt: "y < 2 powr of_int (k + 52 + 1)" .
  have "\<lfloor>log 2 y\<rfloor> < k + 52 + 1"
  proof (rule ccontr)
    assume "\<not> \<lfloor>log 2 y\<rfloor> < k + 52 + 1"
    then have "k + 52 + 1 \<le> \<lfloor>log 2 y\<rfloor>" by simp
    then have "(2::real) powr of_int (k + 52 + 1) \<le> 2 powr of_int \<lfloor>log 2 y\<rfloor>" by (rule pow2_mono)
    also from floor_log2_bounds [OF ypos] have "\<dots> \<le> y" by (rule conjunct1)
    finally show False using ylt by simp
  qed
  with k have E: "E - 52 \<le> k" by (simp add: E_def ab)
  define d where "d = k - (E - 52)"
  have d: "0 \<le> d" using E by (simp add: d_def)
  have q: "quantum y = 2 powr of_int (E - 52)" unfolding E_def by (rule quantum_eq)
  have "2 powr of_int k = 2 powr of_int (d + (E - 52))" by (simp add: d_def)
  also have "\<dots> = 2 powr of_int d * quantum y" by (simp only: pow2_add q)
  finally have kq: "2 powr of_int k = of_int (2 ^ nat d) * quantum y"
    by (simp only: pow2_int [OF d])
  have qpos: "0 < quantum y" by (rule quantum_pos)
  have yq: "y = of_int (n * 2 ^ nat d) * quantum y"
    unfolding y_def [symmetric] using kq by (simp add: y_def)
  have "y / quantum y = of_int (n * 2 ^ nat d) * quantum y / quantum y"
    using yq by simp
  also have "\<dots> = of_int (n * 2 ^ nat d)" using qpos by simp
  finally have sc: "y / quantum y = of_int (n * 2 ^ nat d)" .
  have "rnd y = of_int (round_even (y / quantum y)) * quantum y"
    using ypos by (simp add: rnd_def)
  also have "\<dots> = of_int (n * 2 ^ nat d) * quantum y"
    by (simp only: sc round_even_of_int)
  also have "\<dots> = y" using yq by simp
  finally show ?thesis by (simp only: y_def)
qed

lemma rnd_eq: "x \<noteq> 0 \<Longrightarrow> rnd x = of_int (round_even (x / quantum x)) * quantum x"
  by (simp add: rnd_def)

lemma round_even_le_pow:
  assumes "x < 2 ^ 53"
  shows "round_even x \<le> 2 ^ 53"
proof -
  have "round_even x \<le> round_even (of_int (2 ^ 53))"
    using assms by (intro round_even_mono) simp
  then show ?thesis by (simp only: round_even_of_int)
qed

lemma round_even_ge_pow:
  assumes "2 ^ 52 \<le> x"
  shows "2 ^ 52 \<le> round_even x"
proof -
  have "round_even (of_int (2 ^ 52)) \<le> round_even x"
    using assms by (intro round_even_mono) simp
  then show ?thesis by (simp only: round_even_of_int)
qed

lemma rnd_idem:
  assumes "0 \<le> x"
  shows "rnd (rnd x) = rnd x"
proof (cases "x = 0")
  case True
  then show ?thesis by (simp add: rnd_def)
next
  case False
  with assms have pos: "0 < x" by simp
  let ?E = "max \<lfloor>log 2 \<bar>x\<bar>\<rfloor> (- 1022)"
  let ?n = "round_even (x / quantum x)"
  have q: "quantum x = 2 powr of_int (?E - 52)" by (rule quantum_eq)
  have qpos: "0 < quantum x" by (rule quantum_pos)
  have r: "rnd x = of_int ?n * 2 powr of_int (?E - 52)"
    using rnd_eq [OF False] by (simp only: q [symmetric])
  have n0: "0 \<le> ?n" using pos qpos by (intro round_even_nonneg) simp
  have n1: "?n \<le> 2 ^ 53" using scaled_less [OF pos] by (rule round_even_le_pow)
  have k: "- 1074 \<le> ?E - 52" by simp
  show ?thesis
  proof (cases "?n < 2 ^ 53")
    case True
    from rnd_grid [OF n0 True k] show ?thesis by (simp only: r)
  next
    case False
    with n1 have n: "?n = 2 ^ 53" by simp
    have "rnd x = 2 * (2 ^ 52 * 2 powr of_int (?E - 52))" by (simp only: r n) simp
    also have "\<dots> = 2 * 2 powr of_int ?E" by (simp only: pow2_split [of ?E, symmetric])
    also have "\<dots> = 2 powr of_int (?E + 1)" by (simp only: pow2_Suc)
    also have "\<dots> = 2 ^ 52 * 2 powr of_int (?E + 1 - 52)" by (rule pow2_split)
    also have "\<dots> = of_int (2 ^ 52) * 2 powr of_int (?E + 1 - 52)" by simp
    finally have r': "rnd x = of_int (2 ^ 52) * 2 powr of_int (?E + 1 - 52)" .
    have "rnd (of_int (2 ^ 52) * 2 powr of_int (?E + 1 - 52))
            = of_int (2 ^ 52) * 2 powr of_int (?E + 1 - 52)"
      by (rule rnd_grid) simp_all
    then show ?thesis by (simp only: r')
  qed
qed

lemma expo_mono:
  assumes "0 < x" and "x \<le> y"
  shows "max \<lfloor>log 2 \<bar>x\<bar>\<rfloor> (- 1022) \<le> max \<lfloor>log 2 \<bar>y\<bar>\<rfloor> (- 1022)"
proof -
  have "log 2 x \<le> log 2 y" using assms by simp
  then have "\<lfloor>log 2 x\<rfloor> \<le> \<lfloor>log 2 y\<rfloor>" by (rule floor_mono)
  moreover have "\<bar>x\<bar> = x" "\<bar>y\<bar> = y" using assms by simp_all
  ultimately show ?thesis by (simp only:)
qed

lemma rnd_upper:
  assumes "0 < x"
  shows "rnd x \<le> 2 powr of_int (max \<lfloor>log 2 \<bar>x\<bar>\<rfloor> (- 1022) + 1)"
proof -
  let ?E = "max \<lfloor>log 2 \<bar>x\<bar>\<rfloor> (- 1022)"
  have q: "quantum x = 2 powr of_int (?E - 52)" by (rule quantum_eq)
  have qpos: "0 < quantum x" by (rule quantum_pos)
  have "round_even (x / quantum x) \<le> 2 ^ 53" using scaled_less [OF assms] by (rule round_even_le_pow)
  then have "real_of_int (round_even (x / quantum x)) \<le> 2 ^ 53"
    by (metis of_int_le_numeral_power_cancel_iff)
  then have "rnd x \<le> 2 ^ 53 * quantum x"
    using assms qpos by (simp add: rnd_def)
  also have "\<dots> = 2 * (2 ^ 52 * 2 powr of_int (?E - 52))" by (simp only: q) simp
  also have "\<dots> = 2 * 2 powr of_int ?E" by (simp only: pow2_split [of ?E, symmetric])
  also have "\<dots> = 2 powr of_int (?E + 1)" by (simp only: pow2_Suc)
  finally show ?thesis .
qed

lemma rnd_lower:
  assumes "2 powr of_int (- 1022) \<le> x"
  shows "2 powr of_int (max \<lfloor>log 2 \<bar>x\<bar>\<rfloor> (- 1022)) \<le> rnd x"
proof -
  let ?E = "max \<lfloor>log 2 \<bar>x\<bar>\<rfloor> (- 1022)"
  have pos: "0 < x" using assms pow2_pos [of "- 1022"] by linarith
  have q: "quantum x = 2 powr of_int (?E - 52)" by (rule quantum_eq)
  have qpos: "0 < quantum x" by (rule quantum_pos)
  have "2 ^ 52 \<le> round_even (x / quantum x)" using scaled_ge [OF assms] by (rule round_even_ge_pow)
  then have "2 ^ 52 \<le> real_of_int (round_even (x / quantum x))"
    by (metis numeral_power_le_of_int_cancel_iff)
  then have "2 ^ 52 * quantum x \<le> rnd x"
    using pos qpos by (simp add: rnd_def)
  moreover have "2 ^ 52 * quantum x = 2 powr of_int ?E"
    by (simp only: q pow2_split [of ?E, symmetric])
  ultimately show ?thesis by simp
qed

lemma rnd_mono:
  assumes "0 \<le> x" and "x \<le> y"
  shows "rnd x \<le> rnd y"
proof (cases "x = 0")
  case True
  then show ?thesis using rnd_nonneg [of y] assms by (simp add: rnd_def)
next
  case False
  with assms have pos: "0 < x" and ypos: "0 < y" by simp_all
  let ?Ex = "max \<lfloor>log 2 \<bar>x\<bar>\<rfloor> (- 1022)"
  let ?Ey = "max \<lfloor>log 2 \<bar>y\<bar>\<rfloor> (- 1022)"
  have le: "?Ex \<le> ?Ey" using pos assms(2) by (rule expo_mono)
  show ?thesis
  proof (cases "?Ex = ?Ey")
    case True
    then have q: "quantum y = quantum x" by (simp only: quantum_eq)
    have "x / quantum x \<le> y / quantum x"
      using assms(2) quantum_pos [of x] by (simp add: divide_right_mono)
    then have "round_even (x / quantum x) \<le> round_even (y / quantum x)" by (rule round_even_mono)
    then have "real_of_int (round_even (x / quantum x)) * quantum x
                 \<le> real_of_int (round_even (y / quantum x)) * quantum x"
      using quantum_pos [of x] by simp
    then show ?thesis using pos ypos by (simp add: rnd_def q)
  next
    case False
    have "\<And>a b::int. a \<le> b \<Longrightarrow> a \<noteq> b \<Longrightarrow> a + 1 \<le> b" by simp
    from this [OF le False] have lt: "?Ex + 1 \<le> ?Ey" .
    have "- 1022 \<le> ?Ex" by (rule max.cobounded2)
    with lt have "- 1022 < ?Ey" by linarith
    moreover have "\<And>a b::int. b < max a b \<Longrightarrow> max a b = a" by simp
    moreover have "\<bar>y\<bar> = y" using ypos by simp
    ultimately have Ey: "?Ey = \<lfloor>log 2 y\<rfloor>" by (simp only:)
    have "- 1022 \<le> ?Ey" by (rule max.cobounded2)
    then have "- 1022 \<le> \<lfloor>log 2 y\<rfloor>" by (simp only: Ey)
    then have "(2::real) powr of_int (- 1022) \<le> 2 powr of_int \<lfloor>log 2 y\<rfloor>"
      by (rule pow2_mono)
    also from floor_log2_bounds [OF ypos] have "\<dots> \<le> y" by (rule conjunct1)
    finally have ny: "2 powr of_int (- 1022) \<le> y" .
    have "rnd x \<le> 2 powr of_int (?Ex + 1)" using pos by (rule rnd_upper)
    also have "\<dots> \<le> 2 powr of_int ?Ey" using lt by (rule pow2_mono)
    also have "\<dots> \<le> rnd y" using ny by (rule rnd_lower)
    finally show ?thesis .
  qed
qed

lemma length_cumsum_f64_from: "length (cumsum_f64_from a s) = length s"
  by (induction s arbitrary: a) simp_all

lemma length_np_cumsum_f64: "length (np_cumsum_f64 s) = length s"
  by (cases s) (simp_all add: length_cumsum_f64_from)

lemma nth_cumsum_f64_from:
  "i < length s \<Longrightarrow> cumsum_f64_from a s ! i = foldl fadd a (take (Suc i) s)"
proof (induction s arbitrary: a i)
  case Nil
  then show ?case by simp
next
  case (Cons x xs)
  show ?case
  proof (cases i)
    case 0
    then show ?thesis by simp
  next
    case (Suc j)
    with Cons.prems have "j < length xs" by simp
    from Cons.IH [OF this, of "fadd a x"] Suc show ?thesis by simp
  qed
qed

lemma nth_np_cumsum_f64:
  "i < length s \<Longrightarrow> np_cumsum_f64 s ! i = fsum (take (Suc i) s)"
proof (cases s)
  case Nil
  assume "i < length s"
  with Nil show ?thesis by simp
next
  case (Cons x xs)
  assume i: "i < length s"
  show ?thesis
  proof (cases i)
    case 0
    with Cons show ?thesis by simp
  next
    case (Suc j)
    with i Cons have "j < length xs" by simp
    from nth_cumsum_f64_from [OF this, of x] Suc Cons show ?thesis by simp
  qed
qed

lemma rnd_one: "rnd 1 = 1"
  using rnd_grid [of 1 0] by simp

lemma rnd_half: "rnd (1 / 2) = 1 / 2"
proof -
  have "(2::real) powr of_int (- 1) = 1 / 2" by (simp add: powr_minus_divide)
  with rnd_grid [of 1 "- 1"] show ?thesis by simp
qed

lemma rnd_threshold: "1 / 2 \<le> rnd (99 / 100) \<and> rnd (99 / 100) \<le> 1"
  using rnd_mono [of "1 / 2" "99 / 100"] rnd_mono [of "99 / 100" 1]
  by (simp add: rnd_one rnd_half)

lemma fl_threshold: "fl (99 / 100) = Fin (rnd (99 / 100))"
proof -
  have "(1::real) < 2 ^ 1024" by (rule one_less_power) simp_all
  with rnd_threshold show ?thesis by (simp add: fl_def)
qed

lemma fl_nonneg:
  assumes "0 \<le> x"
  shows "fl x = PInf \<or> fl x = Fin (rnd x)"
  using rnd_nonneg [OF assms] by (simp add: fl_def)

lemma foldl_fadd_PInf: "foldl fadd PInf (map Fin xs) = PInf"
  by (induction xs) simp_all

lemma running_sums:
  assumes "0 \<le> a" and "rnd a = a"
    and "\<forall>x\<in>set xs. 0 \<le> x \<and> rnd x = x"
    and "foldl fadd (Fin a) (map Fin xs) = Fin t"
  shows "\<exists>us. cumsum_f64_from (Fin a) (map Fin xs) = map Fin us
            \<and> (\<forall>u\<in>set us. a \<le> u \<and> u \<le> t) \<and> last (a # us) = t
            \<and> a \<le> t \<and> (\<forall>x\<in>set xs. x \<le> t)"
  using assms
proof (induction xs arbitrary: a)
  case Nil
  then show ?case by simp
next
  case (Cons x xs)
  have x: "0 \<le> x" "rnd x = x" using Cons.prems(3) by simp_all
  have nn: "0 \<le> a + x" using Cons.prems(1) x(1) by simp
  from fl_nonneg [OF nn] have "fl (a + x) = Fin (rnd (a + x))"
  proof
    assume "fl (a + x) = PInf"
    with Cons.prems(4) show ?thesis by (simp add: foldl_fadd_PInf)
  qed
  then have step: "fadd (Fin a) (Fin x) = Fin (rnd (a + x))" by simp
  let ?b = "rnd (a + x)"
  have b0: "0 \<le> ?b" using nn by (rule rnd_nonneg)
  have bb: "rnd ?b = ?b" using nn by (rule rnd_idem)
  have ab: "a \<le> ?b" using rnd_mono [of a "a + x"] Cons.prems(1,2) x(1) by simp
  have xb: "x \<le> ?b" using rnd_mono [of x "a + x"] Cons.prems(1) x by simp
  have rest: "\<forall>x\<in>set xs. 0 \<le> x \<and> rnd x = x" using Cons.prems(3) by simp
  have tot: "foldl fadd (Fin ?b) (map Fin xs) = Fin t" using Cons.prems(4) step by simp
  from Cons.IH [OF b0 bb rest tot] obtain us where
    us: "cumsum_f64_from (Fin ?b) (map Fin xs) = map Fin us"
    and bd: "\<forall>u\<in>set us. ?b \<le> u \<and> u \<le> t" and la: "last (?b # us) = t"
    and bt: "?b \<le> t" and xt: "\<forall>x\<in>set xs. x \<le> t" by blast
  have "cumsum_f64_from (Fin a) (map Fin (x # xs)) = map Fin (?b # us)"
    using step us by simp
  moreover have "\<forall>u\<in>set (?b # us). a \<le> u \<and> u \<le> t"
    using bd ab bt by auto
  moreover have "last (a # ?b # us) = t" using la by simp
  moreover have "a \<le> t" using ab bt by simp
  moreover have "\<forall>y\<in>set (x # xs). y \<le> t" using xt xb bt by auto
  ultimately show ?case by blast
qed

lemma fold_fmaximum_Fin:
  "fold (\<lambda>y m. fmaximum m y) (map Fin us) (Fin m) = Fin (fold max us m)"
proof (induction us arbitrary: m)
  case Nil
  then show ?case by simp
next
  case (Cons u us)
  have "fmaximum (Fin m) (Fin u) = Fin (max u m)"
    by (simp add: fmaximum_def max_def)
  with Cons.IH [of "max u m"] show ?case by simp
qed

lemma np_max_f64_Fin:
  assumes "us \<noteq> []"
  shows "np_max_f64 (map Fin us) = Inr (Fin (Max (set us)))"
proof -
  from assms obtain u rest where us: "us = u # rest" by (cases us) auto
  have "np_max us = Inr (Max (set us))" using assms by (rule np_max_eq_Max)
  then have "fold max rest u = Max (set us)" by (simp add: us)
  then show ?thesis by (simp add: us fold_fmaximum_Fin)
qed

lemma cumsum_of_doubles:
  assumes dbl: "\<forall>x\<in>set (x # xs). 0 \<le> x \<and> is_double x"
    and fin: "fsum (map Fin (x # xs)) = Fin t"
  shows "\<exists>us. np_cumsum_f64 (map Fin (x # xs)) = map Fin (x # us)
            \<and> (\<forall>u\<in>set (x # us). u \<le> t) \<and> last (x # us) = t
            \<and> (\<forall>y\<in>set (x # xs). y \<le> t)"
proof -
  have x: "0 \<le> x" "rnd x = x" using dbl by (simp_all add: is_double_def)
  have rest: "\<forall>x\<in>set xs. 0 \<le> x \<and> rnd x = x" using dbl by (simp add: is_double_def)
  have tot: "foldl fadd (Fin x) (map Fin xs) = Fin t" using fin by simp
  from running_sums [OF x rest tot] obtain us where
    us: "cumsum_f64_from (Fin x) (map Fin xs) = map Fin us"
    and bd: "\<forall>u\<in>set us. x \<le> u \<and> u \<le> t" and la: "last (x # us) = t"
    and xt: "x \<le> t" and yt: "\<forall>y\<in>set xs. y \<le> t" by blast
  have "np_cumsum_f64 (map Fin (x # xs)) = map Fin (x # us)" using us by simp
  moreover have "\<forall>u\<in>set (x # us). u \<le> t" using bd xt by auto
  moreover have "\<forall>y\<in>set (x # xs). y \<le> t" using yt xt by auto
  ultimately show ?thesis using la by blast
qed

lemma max_of_cumsum_f64:
  assumes dbl: "\<forall>x\<in>set xs. 0 \<le> x \<and> is_double x" and ne: "xs \<noteq> []"
    and fin: "fsum (map Fin xs) = Fin t"
  shows "np_max_f64 (np_cumsum_f64 (map Fin xs)) = Inr (Fin t) \<and> (\<forall>y\<in>set xs. y \<le> t)"
proof -
  from ne obtain x rest where xs: "xs = x # rest" by (cases xs) auto
  from cumsum_of_doubles [OF dbl [unfolded xs] fin [unfolded xs]] obtain us where
    c: "np_cumsum_f64 (map Fin (x # rest)) = map Fin (x # us)"
    and bd: "\<forall>u\<in>set (x # us). u \<le> t" and la: "last (x # us) = t"
    and yt: "\<forall>y\<in>set (x # rest). y \<le> t" by blast
  have "Max (set (x # us)) = t"
  proof (rule Max_eqI)
    show "finite (set (x # us))" by simp
  next
    fix y assume "y \<in> set (x # us)"
    with bd show "y \<le> t" by blast
  next
    have "last (x # us) \<in> set (x # us)" by (rule last_in_set) simp
    with la show "t \<in> set (x # us)" by simp
  qed
  then have "np_max_f64 (map Fin (x # us)) = Inr (Fin t)"
    using np_max_f64_Fin [of "x # us"] by simp
  with c yt show ?thesis by (simp only: xs)
qed

lemma fge_unit_share:
  assumes "0 < t"
  shows "fge (fdiv (Fin t) (Fin t)) (fl (99 / 100))"
proof -
  have "(1::real) < 2 ^ 1024" by (rule one_less_power) simp_all
  then have "fl 1 = Fin 1" by (simp add: fl_def rnd_one)
  then have "fdiv (Fin t) (Fin t) = Fin 1" using assms by simp
  then show ?thesis using rnd_threshold by (simp add: fl_threshold)
qed

lemma fge_zero_share:
  assumes "0 < t"
  shows "\<not> fge (fdiv (Fin 0) (Fin t)) (fl (99 / 100))"
proof -
  have "fl 0 = Fin 0" by (simp add: fl_def rnd_def)
  then have "fdiv (Fin 0) (Fin t) = Fin 0" using assms by simp
  then show ?thesis using rnd_threshold by (simp add: fl_threshold)
qed

lemma rnd_unit_interval:
  assumes "1 / 2 \<le> x" and "x < 1"
  shows "rnd x = of_int (round_even (x * 2 ^ 53)) / 2 ^ 53"
proof -
  have h: "(2::real) powr of_int (- 1) = 1 / 2" by (simp add: powr_minus_divide)
  have pos: "0 < x" using assms(1) by simp
  then have ab: "\<bar>x\<bar> = x" by simp
  have "2 powr of_int (- 1) \<le> \<bar>x\<bar>" using assms(1) by (simp only: h ab)
  moreover have "\<bar>x\<bar> < 2 powr of_int (- 1 + 1)" using assms(2) by (simp add: ab)
  ultimately have "quantum x = 2 powr of_int (- 1 - 52)" by (rule quantum_normal) simp
  also have "\<dots> = 1 / 2 ^ 53" by (simp add: powr_minus_divide)
  finally have q: "quantum x = 1 / 2 ^ 53" .
  show ?thesis using pos by (simp add: rnd_def q)
qed

lemma rnd_literal: "rnd (99 / 100) = 8917127262193582 / 2 ^ 53"
proof -
  have "round_even (99 / 100 * 2 ^ 53) = 8917127262193582"
    by (simp add: round_even_def)
  with rnd_unit_interval [of "99 / 100"] show ?thesis by simp
qed

lemma rnd_share: "rnd (990000000000098 / 1000000000000099) = 8917127262193582 / 2 ^ 53"
proof -
  have "round_even (990000000000098 / 1000000000000099 * 2 ^ 53) = 8917127262193582"
    by (simp add: round_even_def)
  with rnd_unit_interval [of "990000000000098 / 1000000000000099"] show ?thesis by simp
qed

lemma is_double_int:
  assumes "0 \<le> n" and "n < 2 ^ 53"
  shows "is_double (of_int n)"
proof -
  have "rnd (of_int n * 2 powr of_int 0) = of_int n * 2 powr of_int 0"
    using assms by (intro rnd_grid) simp_all
  then have r: "rnd (of_int n) = of_int n" by simp
  have "real_of_int n < 2 ^ 53" using assms(2) by (metis of_int_less_numeral_power_cancel_iff)
  also have "(2::real) ^ 53 < 2 ^ 1024" by (rule power_strict_increasing) simp_all
  finally have "\<bar>real_of_int n\<bar> < 2 ^ 1024" using assms(1) by simp
  with r show ?thesis by (simp add: is_double_def)
qed

lemma fl_of_double: "is_double x \<Longrightarrow> fl x = Fin x"
  by (auto simp: is_double_def fl_def)

lemma fl_small_int: "0 \<le> n \<Longrightarrow> n < 2 ^ 53 \<Longrightarrow> fl (of_int n) = Fin (of_int n)"
  by (rule fl_of_double) (rule is_double_int)

lemma fl_unit:
  assumes "1 / 2 \<le> x" and "x < 1"
  shows "fl x = Fin (rnd x)"
proof -
  have "rnd (1 / 2) \<le> rnd x" using assms(1) by (intro rnd_mono) simp_all
  moreover have "rnd x \<le> rnd 1" using assms by (intro rnd_mono) simp_all
  moreover have "(1::real) < 2 ^ 1024" by (rule one_less_power) simp_all
  ultimately show ?thesis by (simp add: fl_def rnd_one rnd_half)
qed

lemma max_basis_f64_close_to_threshold:
  "max_basis_f64 [Fin 990000000000098, Fin 10000000000001] = Inr 1"
proof -
  have "fl (of_int 1000000000000099) = Fin (of_int 1000000000000099)"
    by (rule fl_small_int) simp_all
  then have n: "fl 1000000000000099 = Fin 1000000000000099" by simp
  have q: "fl (990000000000098 / 1000000000000099) = Fin (8917127262193582 / 2 ^ 53)"
    using fl_unit [of "990000000000098 / 1000000000000099"] by (simp add: rnd_share)
  have t: "fl (99 / 100) = Fin (8917127262193582 / 2 ^ 53)"
    by (simp add: fl_threshold rnd_literal)
  show ?thesis
    by (simp add: max_basis_f64_def n q t fmaximum_def)
qed

lemma exact_rank_close_to_threshold:
  "spec_effective_rank [990000000000098, 10000000000001] = 2"
  unfolding spec_effective_rank_def
proof (rule Least_equality)
  show "99 / 100 \<le> sum_list (take 2 [990000000000098, 10000000000001])
          / sum_list [990000000000098, 10000000000001 :: real]" by simp
next
  fix y :: nat
  assume a: "99 / 100 \<le> sum_list (take y [990000000000098, 10000000000001])
          / sum_list [990000000000098, 10000000000001 :: real]"
  show "2 \<le> y"
  proof (rule ccontr)
    assume "\<not> 2 \<le> y"
    then have "y = 0 \<or> y = 1" by auto
    with a show False by auto
  qed
qed

lemma max_basis_f64_three_one: "max_basis_f64 [Fin 3, Fin 1] = Inr 2"
proof -
  have "fl (of_int 4) = Fin (of_int 4)" by (rule fl_small_int) simp_all
  then have n: "fl 4 = Fin 4" by simp
  have "round_even (3 / 4 * 2 ^ 53) = 6755399441055744" by (simp add: round_even_def)
  with rnd_unit_interval [of "3 / 4"] have "rnd (3 / 4) = 3 / 4" by simp
  with fl_unit [of "3 / 4"] have q: "fl (3 / 4) = Fin (3 / 4)" by simp
  have "(1::real) < 2 ^ 1024" by (rule one_less_power) simp_all
  then have u: "fl 1 = Fin 1" by (simp add: fl_def rnd_one)
  have t: "fl (99 / 100) = Fin (8917127262193582 / 2 ^ 53)"
    by (simp add: fl_threshold rnd_literal)
  show ?thesis
    by (simp add: max_basis_f64_def n q t u fmaximum_def)
qed

lemma doubles_three_one: "is_double 3 \<and> is_double 1 \<and> fsum (map Fin [3, 1]) = Fin 4"
proof -
  have "is_double (of_int 3)" by (rule is_double_int) simp_all
  moreover have "is_double (of_int 1)" by (rule is_double_int) simp_all
  moreover have "fl (of_int 4) = Fin (of_int 4)" by (rule fl_small_int) simp_all
  ultimately show ?thesis by simp
qed

subsection \<open>The effective rank in binary64\<close>

text \<open>
  Claim C7, for the numbers the code computes with. Let the singular values be
  non-negative binary64 numbers, not all zero, whose sum taken left to right in binary64
  is finite. Then the maximum of the cumulative sums is that sum, so dividing by the
  maximum is dividing by the total; and \<open>max_basis\<close> is the smallest prefix length whose
  share, the rounded quotient of the rounded prefix sum by the rounded total, is at least
  the binary64 number nearest to 0.99. It lies between 1 and the number of singular
  values.
\<close>

theorem effective_rank_binary64:
  assumes dbl: "\<forall>x\<in>set xs. 0 \<le> x \<and> is_double x" and pos: "\<exists>x\<in>set xs. 0 < x"
    and fin: "fsum (map Fin xs) = Fin t"
  shows "np_max_f64 (np_cumsum_f64 (map Fin xs)) = Inr (fsum (map Fin xs))
       \<and> max_basis_f64 (map Fin xs) = Inr (spec_rank_f64 (map Fin xs))
       \<and> 1 \<le> spec_rank_f64 (map Fin xs) \<and> spec_rank_f64 (map Fin xs) \<le> length xs"
proof -
  let ?s = "map Fin xs"
  let ?c = "np_cumsum_f64 ?s"
  let ?P = "\<lambda>r. fge (fdiv (fsum (take r ?s)) (fsum ?s)) (fl (99 / 100))"
  let ?Q = "\<lambda>i. fge (fdiv (?c ! i) (Fin t)) (fl (99 / 100))"
  from pos have ne: "xs \<noteq> []" by auto
  from max_of_cumsum_f64 [OF dbl ne fin]
  have mx: "np_max_f64 ?c = Inr (Fin t)" and le: "\<forall>y\<in>set xs. y \<le> t" by simp_all
  from pos le have tpos: "0 < t" by force
  have len: "length ?c = length xs" by (simp add: length_np_cumsum_f64)
  have Q: "?Q i = ?P (Suc i)" if "i < length xs" for i
    using that nth_np_cumsum_f64 [of i ?s] by (simp add: fin)
  have "?P (length xs)" using fge_unit_share [OF tpos] by (simp add: fin)
  then have last: "?Q (length xs - 1)" using ne Q [of "length xs - 1"] by simp
  have "filter ?Q [0..<length xs] \<noteq> []"
    using ne last by (intro filter_upt_nonempty [of "length xs - 1"]) simp_all
  then obtain i rest where flt: "filter ?Q [0..<length xs] = i # rest"
    by (cases "filter ?Q [0..<length xs]") auto
  from filter_upt_first [OF flt] have Qi: "?Q i" and ilt: "i < length xs"
    and least: "\<forall>j<i. \<not> ?Q j" by auto
  have mb: "max_basis_f64 ?s = Inr (Suc i)"
    using mx flt len by (simp add: max_basis_f64_def)
  have PSi: "?P (Suc i)" using Qi Q [OF ilt] by simp
  have notP: "\<not> ?P r" if "r < Suc i" for r
  proof (cases r)
    case 0
    then show ?thesis using fge_zero_share [OF tpos] by (simp add: fin)
  next
    case (Suc j)
    with that have "j < i" by simp
    with least have "\<not> ?Q j" by blast
    moreover have "j < length xs" using \<open>j < i\<close> ilt by simp
    ultimately show ?thesis using Q [of j] Suc by simp
  qed
  have "spec_rank_f64 ?s = Suc i"
    unfolding spec_rank_f64_def
  proof (rule Least_equality)
    show "?P (Suc i)" by (rule PSi)
  next
    fix y assume "?P y"
    with notP [of y] show "Suc i \<le> y" by (meson not_less)
  qed
  with mx mb ilt fin show ?thesis by simp
qed

theorem effective_rank_binary64_witness:
  "max_basis_f64 (map Fin [3, 1]) = Inr (spec_rank_f64 (map Fin [3, 1]))
   \<and> spec_rank_f64 (map Fin [3, 1]) = 2
   \<and> np_max_f64 (np_cumsum_f64 (map Fin [3, 1])) = Inr (Fin 4)"
  using effective_rank_binary64 [of "[3, 1]" 4] doubles_three_one max_basis_f64_three_one
  by simp

text \<open>
  The rank of claim C7 in exact arithmetic is another number. For the singular values
  \<open>990000000000098\<close> and \<open>10000000000001\<close> the share of the first is below \<open>99/100\<close> by less
  than \<open>2 ^ -54\<close>, so the smallest prefix whose exact share reaches \<open>99/100\<close> has length 2; the
  binary64 quotient and the binary64 literal \<^verbatim>\<open>0.99\<close> are the same number,
  \<open>8917127262193582 / 2 ^ 53\<close>, and lines 70 to 73 give 1.
\<close>

theorem effective_rank_exact_counterexample:
  "max_basis_f64 (map Fin [990000000000098, 10000000000001]) = Inr 1
   \<and> spec_effective_rank [990000000000098, 10000000000001] = 2"
  using max_basis_f64_close_to_threshold exact_rank_close_to_threshold by simp

text \<open>
  The finite sum is needed: when the running sum overflows, the maximum is infinite, every
  quotient is zero or a NaN, no index is found and line 73 raises.
\<close>

lemma max_basis_f64_overflow:
  "max_basis_f64 [Fin (2 ^ 1023), Fin (2 ^ 1023)] = Inl IndexError"
proof -
  have "rnd (of_int 1 * 2 powr of_int 1024) = of_int 1 * 2 powr of_int 1024"
    by (rule rnd_grid) simp_all
  then have "rnd (2 ^ 1024) = 2 ^ 1024" by simp
  then have "fl (2 ^ 1024) = PInf" by (simp add: fl_def)
  moreover have "(2::real) ^ 1023 + 2 ^ 1023 = 2 ^ 1024" by simp
  ultimately have s: "fadd (Fin (2 ^ 1023)) (Fin (2 ^ 1023)) = PInf" by simp
  have c: "np_cumsum_f64 [Fin (2 ^ 1023), Fin (2 ^ 1023)] = [Fin (2 ^ 1023), PInf]"
    using s by simp
  have t: "fl (99 / 100) = Fin (8917127262193582 / 2 ^ 53)"
    by (simp add: fl_threshold rnd_literal)
  show ?thesis
    unfolding max_basis_f64_def c by (simp add: t fmaximum_def)
qed

subsection \<open>Items of an array and the deformation samples\<close>

lemma items_of_concat:
  "\<forall>x\<in>set xs. length x = sz \<Longrightarrow>
     map (\<lambda>j. take sz (drop (j * sz) (concat xs))) [0..<length xs] = xs"
proof (induction xs)
  case Nil
  then show ?case by simp
next
  case (Cons x xs)
  have len: "length x = sz" using Cons.prems by simp
  have "map (\<lambda>j. take sz (drop (j * sz) (concat (x # xs)))) [0..<length (x # xs)]
      = take sz (x @ concat xs) # map (\<lambda>j. take sz (drop (Suc j * sz) (x @ concat xs))) [0..<length xs]"
    by (simp add: upt_conv_Cons map_Suc_upt [symmetric] del: upt_Suc)
  also have "take sz (x @ concat xs) = x" using len by simp
  also have "map (\<lambda>j. take sz (drop (Suc j * sz) (x @ concat xs))) [0..<length xs]
      = map (\<lambda>j. take sz (drop (j * sz) (concat xs))) [0..<length xs]"
    using len by simp
  also have "\<dots> = xs" using Cons by simp
  finally show ?case .
qed

lemma concat_of_items:
  "length d = k * sz \<Longrightarrow> concat (map (\<lambda>j. take sz (drop (j * sz) d)) [0..<k]) = d"
proof (induction k arbitrary: d)
  case 0
  then show ?case by simp
next
  case (Suc k)
  have "length (take (k * sz) d) = k * sz" using Suc.prems by simp
  from Suc.IH [OF this]
  have "concat (map (\<lambda>j. take sz (drop (j * sz) (take (k * sz) d))) [0..<k]) = take (k * sz) d" .
  moreover have "map (\<lambda>j. take sz (drop (j * sz) (take (k * sz) d))) [0..<k]
      = map (\<lambda>j. take sz (drop (j * sz) d)) [0..<k]"
  proof (rule map_cong [OF refl])
    fix j assume "j \<in> set [0..<k]"
    then have "j < k" by simp
    then have "j * sz + sz \<le> k * sz"
      by (metis Suc_leI mult_Suc mult_le_mono1 add.commute)
    then show "take sz (drop (j * sz) (take (k * sz) d)) = take sz (drop (j * sz) d)"
      by (simp add: drop_take min_def)
  qed
  moreover have "take sz (drop (k * sz) d) = drop (k * sz) d" using Suc.prems by simp
  ultimately show ?case by simp
qed

lemma nd_items_length: "length (nd_items a) = hd (shape a)"
  by (simp add: nd_items_def Let_def)

lemma wf_concat_nd_items:
  assumes "wf_nd a" and "shape a \<noteq> []"
  shows "concat (nd_items a) = data a"
proof -
  from assms have "length (data a) = hd (shape a) * prod_list (tl (shape a))"
    by (cases "shape a") (simp_all add: wf_nd_def)
  then show ?thesis by (simp add: nd_items_def Let_def concat_of_items)
qed

lemma wf_nd_items_size:
  "x \<in> set (nd_items a) \<Longrightarrow> wf_nd a \<Longrightarrow> shape a \<noteq> [] \<Longrightarrow> length x = prod_list (tl (shape a))"
proof -
  assume x: "x \<in> set (nd_items a)" and wf: "wf_nd a" and ne: "shape a \<noteq> []"
  let ?sz = "prod_list (tl (shape a))"
  from wf ne have len: "length (data a) = hd (shape a) * ?sz"
    by (cases "shape a") (simp_all add: wf_nd_def)
  from x obtain j where j: "j < hd (shape a)" and xe: "x = take ?sz (drop (j * ?sz) (data a))"
    by (auto simp: nd_items_def Let_def)
  from j have "j * ?sz + ?sz \<le> hd (shape a) * ?sz"
    by (metis Suc_leI mult_Suc mult_le_mono1 add.commute)
  with len xe show ?thesis by simp
qed

lemma nd_items_of_concat:
  assumes "\<forall>x\<in>set xs. length x = prod_list sh"
  shows "nd_items \<lparr>shape = length xs # sh, data = concat xs\<rparr> = xs"
  using items_of_concat [OF assms] by (simp add: nd_items_def Let_def)


lemma length_concat_replicate: "length (concat (replicate k v)) = k * length v"
  by (induction k) simp_all

lemma newaxis_literal: "newaxis \<lparr>shape = sh, data = d\<rparr> = \<lparr>shape = 1 # sh, data = d\<rparr>"
  by (simp add: newaxis_def)

lemma repeated_row:
  "np_repeat0 (newaxis (np_1d v)) k = \<lparr>shape = [k, length v], data = concat (replicate k v)\<rparr>"
  by (simp add: np_repeat0_def newaxis_def np_1d_def nd_items_def)

text \<open>
  Claim C9. On a well-formed array of shape \<open>(n, P, A)\<close>, with \<open>A\<close> the number of
  configured angles, \<^verbatim>\<open>add_trans_samples\<close> returns an array of shape \<open>(n + 2, P, A)\<close>:
  its first \<open>n\<close> samples are those of the input, sample \<open>n\<close> has \<open>P\<close> rows that are all
  the vector of cosines of the angles (degrees turned into radians), and sample \<open>n + 1\<close>
  has \<open>P\<close> rows that are all the vector of sines.
\<close>

theorem add_trans_samples_appends_cos_sin:
  assumes sh: "shape features = [n, P, A]" and wf: "wf_nd features"
    and ang: "length (thetas st) = A"
  shows "\<exists>out. add_trans_samples st features = Inr out
           \<and> shape out = [n + 2, P, A]
           \<and> nd_items out = nd_items features
                @ [concat (replicate P (map (\<lambda>t. cos (t * pi / 180)) (thetas st))),
                   concat (replicate P (map (\<lambda>t. sin (t * pi / 180)) (thetas st)))]
           \<and> nd_items \<lparr>shape = [P, A], data = nd_items out ! n\<rparr>
                = replicate P (map (\<lambda>t. cos (t * pi / 180)) (thetas st))
           \<and> nd_items \<lparr>shape = [P, A], data = nd_items out ! (n + 1)\<rparr>
                = replicate P (map (\<lambda>t. sin (t * pi / 180)) (thetas st))"
proof -
  let ?v1 = "map (\<lambda>t. cos (t * pi / 180)) (thetas st)"
  let ?v2 = "map (\<lambda>t. sin (t * pi / 180)) (thetas st)"
  let ?r1 = "concat (replicate P ?v1)"
  let ?r2 = "concat (replicate P ?v2)"
  let ?out = "\<lparr>shape = [n + 2, P, A], data = data features @ ?r1 @ ?r2\<rparr>"
  let ?xs = "nd_items features @ [?r1, ?r2]"
  have res: "add_trans_samples st features = Inr ?out"
    using sh ang by (simp add: add_trans_samples_def Let_def repeated_row newaxis_literal)
  have ne: "shape features \<noteq> []" using sh by simp
  have cat: "concat ?xs = data features @ ?r1 @ ?r2"
    using wf_concat_nd_items [OF wf ne] by simp
  have lenxs: "length ?xs = n + 2"
    using sh by (simp add: nd_items_length)
  have sizes: "\<forall>x\<in>set ?xs. length x = prod_list [P, A]"
    using wf_nd_items_size [OF _ wf ne] sh ang by (auto simp: length_concat_replicate)
  have items: "nd_items ?out = ?xs"
    using nd_items_of_concat [OF sizes] cat lenxs by simp
  have len_items: "length (nd_items features) = n"
    using sh by (simp add: nd_items_length)
  have at_n: "?xs ! n = ?r1" and at_n1: "?xs ! (n + 1) = ?r2"
    using len_items by (simp_all add: nth_append)
  have rows1: "nd_items \<lparr>shape = [P, A], data = ?r1\<rparr> = replicate P ?v1"
    using nd_items_of_concat [of "replicate P ?v1" "[A]"] ang by simp
  have rows2: "nd_items \<lparr>shape = [P, A], data = ?r2\<rparr> = replicate P ?v2"
    using nd_items_of_concat [of "replicate P ?v2" "[A]"] ang by simp
  show ?thesis
    using res items at_n at_n1 rows1 rows2 by simp
qed

theorem add_trans_samples_appends_cos_sin_witness:
  "add_trans_samples (init 2 [0, 90] False) \<lparr>shape = [1, 2, 2], data = [5, 6, 7, 8]\<rparr>
     = Inr \<lparr>shape = [3, 2, 2], data = [5, 6, 7, 8, 1, 0, 1, 0, 0, 1, 0, 1]\<rparr>"
proof -
  have c: "cos (90 * pi / 180) = 0" and s: "sin (90 * pi / 180) = 1"
    by (simp_all add: cos_pi_half sin_pi_half)
  have "add_trans_samples (init 2 [0, 90] False) \<lparr>shape = [1, 2, 2], data = [5, 6, 7, 8]\<rparr>
     = Inr \<lparr>shape = [3, 2, 2], data = [5, 6, 7, 8, 1, 0, 1, 0, 0, 1, 0, 1]\<rparr>"
    using c s
    by (simp add: add_trans_samples_def Let_def repeated_row newaxis_literal init_def numeral_2_eq_2)
  with add_trans_samples_appends_cos_sin
         [of "\<lparr>shape = [1, 2, 2], data = [5, 6, 7, 8]\<rparr>" 1 2 2 "init 2 [0, 90] False"]
  show ?thesis by simp
qed

subsection \<open>Fitting\<close>

lemma signed_batch_of_three_images:
  "rscdt_parallel image_as_signed_coefficients st three_images = Inr three_features"
  by (simp add: rscdt_parallel_def fun_rscdt_batch_def fun_rscdt_single_def rscdt_call_def
      image_as_signed_coefficients_def three_images_def add_scalar_def eps_def three_features_def)

lemma items_of_three_features: "nd_items three_features = [[1, 0], [0, 1], [0, 0]]"
  by (simp add: nd_items_def three_features_def Let_def upt_conv_Cons)

lemma flat_of_three_features:
  "class_flat st three_features [0, 0, 0] True 0 = Inr unit_columns"
  by (simp add: class_flat_def bool_index_def items_of_three_features reshape_rows_def
      unit_columns_def)
    (simp add: three_features_def)

lemma max_basis_of_ones: "max_basis_of [1, 1] = Inr 2"
  by (simp add: max_basis_of_def np_cumsum_def np_where_ge_def)

lemma svd_of_unit_columns_known:
  "svd_of_unit_columns unit_columns = Inr (unit_columns, [1, 1], identity2)"
  by (simp add: svd_of_unit_columns_def)

lemma slice_identity2: "slice_rows identity2 (hd (shape unit_columns)) = Inr identity2"
  by (simp add: slice_rows_def identity2_def unit_columns_def)

lemma fit_class_of_three_features:
  "fit_class svd_of_unit_columns three_features [0, 0, 0] True 0 st
     = (st\<lparr>len_subspace := max 2 (len_subspace st), subspaces := subspaces st @ [identity2]\<rparr>, None)"
  unfolding fit_class_def flat_of_three_features
  by (simp add: svd_of_unit_columns_known max_basis_of_ones slice_identity2 max_def)

lemma fit_of_three_images:
  assumes "num_classes st = 1"
  shows "RSCDT_NS_fit image_as_signed_coefficients svd_of_unit_columns st three_images [0, 0, 0] True
     = (st\<lparr>len_subspace := max 2 (len_subspace st), subspaces := subspaces st @ [identity2]\<rparr>, None)"
proof -
  have cr: "class_range st = [0]"
    using assms by (simp add: class_range_def)
  show ?thesis
    unfolding RSCDT_NS_fit_def signed_batch_of_three_images cr
    by (simp add: fit_class_of_three_features)
qed


lemma fit_class_frame:
  assumes "fit_class svd X Ytrain nd c st = (st', r)"
  shows "num_classes st' = num_classes st \<and> thetas st' = thetas st \<and> rm_edge st' = rm_edge st
       \<and> len_subspace st \<le> len_subspace st'
       \<and> (r = None \<longrightarrow> (\<exists>b. subspaces st' = subspaces st @ [b]))
       \<and> (r \<noteq> None \<longrightarrow> subspaces st' = subspaces st)"
  using assms
  by (auto simp: fit_class_def Let_def split: sum.splits prod.splits if_splits)

lemma fit_loop_frame:
  assumes "fit_loop svd X Ytrain nd cs st = (st', r)"
  shows "num_classes st' = num_classes st \<and> thetas st' = thetas st \<and> rm_edge st' = rm_edge st
       \<and> len_subspace st \<le> len_subspace st'
       \<and> (\<exists>bs. subspaces st' = subspaces st @ bs \<and> length bs \<le> length cs
              \<and> (r = None \<longrightarrow> length bs = length cs))"
  using assms
proof (induction cs arbitrary: st)
  case Nil
  then show ?case by simp
next
  case (Cons c cs)
  obtain st1 r1 where step: "fit_class svd X Ytrain nd c st = (st1, r1)"
    by (cases "fit_class svd X Ytrain nd c st")
  note fr = fit_class_frame [OF step]
  show ?case
  proof (cases r1)
    case None
    with step Cons.prems have rest: "fit_loop svd X Ytrain nd cs st1 = (st', r)" by simp
    from fr None obtain b where b: "subspaces st1 = subspaces st @ [b]" by auto
    from Cons.IH [OF rest] obtain bs where
      bs: "subspaces st' = subspaces st1 @ bs" "length bs \<le> length cs"
          "r = None \<longrightarrow> length bs = length cs"
      and fr': "num_classes st' = num_classes st1" "thetas st' = thetas st1"
          "rm_edge st' = rm_edge st1" "len_subspace st1 \<le> len_subspace st'"
      by auto
    have "subspaces st' = subspaces st @ (b # bs)" using b bs(1) by simp
    moreover have "length (b # bs) \<le> length (c # cs)" using bs(2) by simp
    moreover have "r = None \<longrightarrow> length (b # bs) = length (c # cs)" using bs(3) by simp
    ultimately show ?thesis using fr fr' by (metis le_trans)
  next
    case (Some e)
    with step Cons.prems have "st' = st1" "r = Some e" by simp_all
    with fr Some show ?thesis by auto
  qed
qed

lemma RSCDT_NS_fit_frame:
  assumes "RSCDT_NS_fit forward svd st Xtrain Ytrain nd = (st', r)"
  shows "num_classes st' = num_classes st \<and> thetas st' = thetas st \<and> rm_edge st' = rm_edge st
       \<and> len_subspace st \<le> len_subspace st'
       \<and> (\<exists>bs. subspaces st' = subspaces st @ bs \<and> length bs \<le> nat (num_classes st)
              \<and> (r = None \<longrightarrow> length bs = nat (num_classes st)))"
proof (cases "rscdt_parallel forward st Xtrain")
  case (Inl e)
  with assms have "st' = st" and "r = Some e" by (simp_all add: RSCDT_NS_fit_def)
  then show ?thesis by simp
next
  case (Inr X)
  with assms have "fit_loop svd X Ytrain nd (class_range st) st = (st', r)"
    by (simp add: RSCDT_NS_fit_def)
  from fit_loop_frame [OF this] show ?thesis by (simp add: class_range_def)
qed






subsection \<open>Fitting twice\<close>

lemma class_residual_prefix:
  assumes "k < length (subspaces st)"
  shows "class_residual (st\<lparr>subspaces := subspaces st @ bs, len_subspace := l\<rparr>) X k
       = class_residual (st\<lparr>len_subspace := l\<rparr>) X k"
  using assms by (simp add: class_residual_def nth_append)

lemma predict_core_prefix:
  assumes "nat (num_classes st) \<le> length (subspaces st)"
  shows "predict_core (st\<lparr>subspaces := subspaces st @ bs, len_subspace := l\<rparr>) Xf
       = predict_core (st\<lparr>len_subspace := l\<rparr>) Xf"
proof -
  have m: "map (class_residual (st\<lparr>subspaces := subspaces st @ bs, len_subspace := l\<rparr>) X)
            (class_range (st\<lparr>subspaces := subspaces st @ bs, len_subspace := l\<rparr>))
      = map (class_residual (st\<lparr>len_subspace := l\<rparr>) X) (class_range (st\<lparr>len_subspace := l\<rparr>))"
    for X
    unfolding class_range_def
    using assms by (intro map_cong class_residual_prefix) simp_all
  show ?thesis
    unfolding predict_core_def by (simp only: m)
qed

text \<open>
  Claim C10. \<^verbatim>\<open>fit\<close> of the signed variant never clears what is stored: whatever the
  outcome of a call, the bases stored before it are a prefix of those stored after it,
  and \<open>len_subspace\<close> does not decrease. A call that returns appends one basis per class.
  So after two calls that return on a new classifier, \<open>2 \<times> num_classes\<close> bases are stored,
  the first \<open>num_classes\<close> of them are those of the first call, and \<^verbatim>\<open>predict\<close> reads
  only these (with the \<open>len_subspace\<close> reached after the second call).
\<close>

theorem second_fit_keeps_first_bases:
  assumes f1: "RSCDT_NS_fit forward svd (init n ths rm) X1 Y1 nd1 = (st1, None)"
    and f2: "RSCDT_NS_fit forward' svd' st1 X2 Y2 nd2 = (st2, None)"
  shows "length (subspaces st1) = nat n
       \<and> length (subspaces st2) = 2 * nat n
       \<and> take (nat n) (subspaces st2) = subspaces st1
       \<and> len_subspace st1 \<le> len_subspace st2
       \<and> predict_core st2 Xf = predict_core (st1\<lparr>len_subspace := len_subspace st2\<rparr>) Xf
       \<and> take (length (subspaces st))
            (subspaces (fst (RSCDT_NS_fit forward'' svd'' st X Y nd))) = subspaces st
       \<and> len_subspace st \<le> len_subspace (fst (RSCDT_NS_fit forward'' svd'' st X Y nd))"
proof -
  from RSCDT_NS_fit_frame [OF f1] obtain bs1 where
    s1: "subspaces st1 = bs1" "length bs1 = nat n" and n1: "num_classes st1 = n"
    by (auto simp: init_def)
  from RSCDT_NS_fit_frame [OF f2] n1 obtain bs2 where
    s2: "subspaces st2 = subspaces st1 @ bs2" "length bs2 = nat n"
    and fr: "num_classes st2 = n" "thetas st2 = thetas st1" "rm_edge st2 = rm_edge st1"
      "len_subspace st1 \<le> len_subspace st2"
    by auto
  have st2: "st2 = st1\<lparr>subspaces := subspaces st1 @ bs2, len_subspace := len_subspace st2\<rparr>"
    using s2(1) fr n1 by simp
  have "nat (num_classes st1) \<le> length (subspaces st1)"
    using s1 n1 by simp
  from predict_core_prefix [OF this, where bs = bs2 and l = "len_subspace st2" and Xf = Xf] st2
  have pred: "predict_core st2 Xf = predict_core (st1\<lparr>len_subspace := len_subspace st2\<rparr>) Xf"
    by simp
  obtain st' r where any: "RSCDT_NS_fit forward'' svd'' st X Y nd = (st', r)"
    by (cases "RSCDT_NS_fit forward'' svd'' st X Y nd")
  from RSCDT_NS_fit_frame [OF any] have
    "take (length (subspaces st)) (subspaces st') = subspaces st"
    "len_subspace st \<le> len_subspace st'"
    by auto
  with any s1 s2 fr pred show ?thesis by simp
qed

theorem second_fit_keeps_first_bases_witness:
  "RSCDT_NS_fit image_as_signed_coefficients svd_of_unit_columns (init 1 [0, 90] False)
      three_images [0, 0, 0] True
     = (\<lparr>num_classes = 1, thetas = [0, 90], rm_edge = False, subspaces = [identity2],
         len_subspace = 2\<rparr>, None)
   \<and> RSCDT_NS_fit image_as_signed_coefficients svd_of_unit_columns
        \<lparr>num_classes = 1, thetas = [0, 90], rm_edge = False, subspaces = [identity2],
         len_subspace = 2\<rparr> three_images [0, 0, 0] True
     = (\<lparr>num_classes = 1, thetas = [0, 90], rm_edge = False,
         subspaces = [identity2, identity2], len_subspace = 2\<rparr>, None)
   \<and> length [identity2, identity2] = 2 * nat 1"
proof -
  have f1: "RSCDT_NS_fit image_as_signed_coefficients svd_of_unit_columns (init 1 [0, 90] False)
      three_images [0, 0, 0] True
     = (\<lparr>num_classes = 1, thetas = [0, 90], rm_edge = False, subspaces = [identity2],
         len_subspace = 2\<rparr>, None)"
    by (simp add: fit_of_three_images init_def)
  have f2: "RSCDT_NS_fit image_as_signed_coefficients svd_of_unit_columns
        \<lparr>num_classes = 1, thetas = [0, 90], rm_edge = False, subspaces = [identity2],
         len_subspace = 2\<rparr> three_images [0, 0, 0] True
     = (\<lparr>num_classes = 1, thetas = [0, 90], rm_edge = False,
         subspaces = [identity2, identity2], len_subspace = 2\<rparr>, None)"
    by (simp add: fit_of_three_images)
  from second_fit_keeps_first_bases [OF f1 f2] f1 f2 show ?thesis by simp
qed

subsection \<open>Fitting in the unsigned variant\<close>

lemma unsigned_batch_of_two_images:
  "rcdt_parallel image_as_coefficients 1 st two_images = Inr two_features"
  by (simp add: rcdt_parallel_def array_split_def section_sizes_def fun_rcdt_batch_def
      fun_rcdt_single_def rcdt_call_def image_as_coefficients_def two_images_def add_scalar_def
      div_scalar_def np_sum_def eps_def np_vstack_def atleast_2d_def Let_def two_features_def)

lemma items_of_two_features:
  "nd_items two_features = [[1000001 / 4000002, 3000001 / 4000002], [1 / 2, 1 / 2]]"
  by (simp add: nd_items_def two_features_def Let_def upt_conv_Cons)

lemma flat_of_two_features:
  "\<exists>flat. class_flat st two_features [0, 0] True 0 = Inr flat"
  by (simp add: class_flat_def bool_index_def items_of_two_features reshape_rows_def)
    (simp add: two_features_def)

lemma reshape_two_features: "\<exists>X. reshape_rows two_features = Inr X"
  by (simp add: reshape_rows_def two_features_def)

text \<open>
  Claim C1 says that \<^verbatim>\<open>fit\<close> builds and stores one basis per class and tracks the maximum
  rank, in both variants. The signed variant does whenever it returns (lemma
  \<open>RSCDT_NS_fit_frame\<close>). In the unsigned variant the decomposition and both
  assignments are commented out: whatever it is given, \<^verbatim>\<open>fit\<close> leaves the classifier as
  it was. On two images of one class it returns without an exception, with no basis
  stored, and \<^verbatim>\<open>predict\<close> then fails on \<^verbatim>\<open>self.subspaces[0]\<close>.
\<close>

theorem unsigned_fit_stores_no_basis:
  "fst (MY_RDCT_NS_fit forward cpu_count st Xtrain Ytrain nd) = st
   \<and> MY_RDCT_NS_fit image_as_coefficients 1 (init 1 [0, 90] False) two_images [0, 0] True
       = (init 1 [0, 90] False, None)
   \<and> MY_RDCT_NS_predict image_as_coefficients 1 (init 1 [0, 90] False) two_images
       = Inl IndexError"
proof -
  have a: "fst (MY_RDCT_NS_fit forward cpu_count st Xtrain Ytrain nd) = st"
    by (simp add: MY_RDCT_NS_fit_def split: sum.splits)
  have cr: "class_range (init 1 [0, 90] False) = [0]"
    by (simp add: class_range_def init_def)
  have b: "MY_RDCT_NS_fit image_as_coefficients 1 (init 1 [0, 90] False) two_images [0, 0] True
       = (init 1 [0, 90] False, None)"
    unfolding MY_RDCT_NS_fit_def unsigned_batch_of_two_images cr
    using flat_of_two_features [of "init 1 [0, 90] False"] by auto
  have c: "MY_RDCT_NS_predict image_as_coefficients 1 (init 1 [0, 90] False) two_images
       = Inl IndexError"
    unfolding MY_RDCT_NS_predict_def unsigned_batch_of_two_images predict_core_def cr
    using reshape_two_features by (auto simp: class_residual_def init_def)
  from a b c show ?thesis by simp
qed

subsection \<open>Splitting a batch across workers\<close>

lemma concat_chop: "concat (chop ks xs) = take (sum_list ks) xs"
proof (induction ks arbitrary: xs)
  case Nil
  then show ?case by simp
next
  case (Cons k ks)
  have "concat (chop (k # ks) xs) = take k xs @ take (sum_list ks) (drop k xs)"
    using Cons.IH by simp
  also have "\<dots> = take (k + sum_list ks) xs"
    by (simp add: take_add)
  finally show ?case by simp
qed

lemma length_chop: "sum_list ks \<le> length xs \<Longrightarrow> map length (chop ks xs) = ks"
  by (induction ks arbitrary: xs) simp_all

lemma sum_section_sizes: "0 < n \<Longrightarrow> sum_list (section_sizes t n) = t"
proof -
  assume n: "0 < n"
  have le: "t mod n \<le> n" using n by (simp add: less_imp_le)
  have "sum_list (section_sizes t n) = (t mod n) * (t div n + 1) + (n - t mod n) * (t div n)"
    by (simp add: section_sizes_def sum_list_replicate)
  also have "\<dots> = t mod n + (t mod n + (n - t mod n)) * (t div n)"
    by (simp add: algebra_simps)
  also have "\<dots> = t mod n + n * (t div n)"
    using le by simp
  also have "\<dots> = t"
    by simp
  finally show ?thesis .
qed

lemma section_sizes_positive:
  assumes "0 < n" and "n \<le> t"
  shows "\<forall>k\<in>set (section_sizes t n). 0 < k"
proof -
  from assms have "0 < t div n"
    by (simp add: div_greater_zero_iff)
  then show ?thesis by (auto simp: section_sizes_def)
qed

lemma array_split_sections:
  assumes "0 < n" and "n \<le> length X"
  shows "\<exists>cs. array_split X n = Inr cs \<and> concat cs = X \<and> length cs = n \<and> (\<forall>c\<in>set cs. c \<noteq> [])"
proof -
  let ?ks = "section_sizes (length X) n"
  let ?cs = "chop ?ks X"
  have sum: "sum_list ?ks = length X" by (rule sum_section_sizes [OF assms(1)])
  have cat: "concat ?cs = X" by (simp add: concat_chop sum)
  have lens: "map length ?cs = ?ks" by (rule length_chop) (simp add: sum)
  have "length ?cs = length ?ks" using lens by (metis length_map)
  then have len: "length ?cs = n"
    using assms(1) by (simp add: section_sizes_def less_imp_le)
  have "\<forall>c\<in>set ?cs. c \<noteq> []"
  proof
    fix c assume "c \<in> set ?cs"
    then have "length c \<in> set (map length ?cs)" by simp
    then have "length c \<in> set ?ks" using lens by simp
    with section_sizes_positive [OF assms] show "c \<noteq> []" by auto
  qed
  with cat len assms(1) show ?thesis by (simp add: array_split_def)
qed

lemma np_array_uniform:
  assumes "c \<noteq> []" and "\<forall>y\<in>set c. shape (T y) = sh"
  shows "np_array (map T c) = Inr \<lparr>shape = length c # sh, data = concat (map (\<lambda>y. data (T y)) c)\<rparr>"
  using assms by (cases c) (simp_all add: list_all_iff comp_def)

lemma collect_sections:
  assumes "\<forall>c\<in>set cs. c \<noteq> []" and "\<forall>y\<in>set (concat cs). shape (T y) = sh"
  shows "collect (map (\<lambda>c. np_array (map T c)) cs)
       = Inr (map (\<lambda>c. \<lparr>shape = length c # sh, data = concat (map (\<lambda>y. data (T y)) c)\<rparr>) cs)"
  using assms
proof (induction cs)
  case Nil
  then show ?case by simp
next
  case (Cons c cs)
  have "np_array (map T c)
      = Inr \<lparr>shape = length c # sh, data = concat (map (\<lambda>y. data (T y)) c)\<rparr>"
    using Cons.prems by (intro np_array_uniform) auto
  moreover have "collect (map (\<lambda>c. np_array (map T c)) cs)
      = Inr (map (\<lambda>c. \<lparr>shape = length c # sh, data = concat (map (\<lambda>y. data (T y)) c)\<rparr>) cs)"
    using Cons.prems by (intro Cons.IH) auto
  ultimately show ?case by simp
qed

lemma concat_sections: "concat (map (\<lambda>c. concat (map f c)) cs) = concat (map f (concat cs))"
  by (induction cs) simp_all

lemma np_vstack_sections:
  assumes "cs \<noteq> []" and "2 \<le> length sh"
  shows "np_vstack (map (\<lambda>c. \<lparr>shape = length c # sh, data = concat (map f c)\<rparr>) cs)
       = Inr \<lparr>shape = length (concat cs) # sh, data = concat (map f (concat cs))\<rparr>"
proof -
  let ?stack = "\<lambda>c. \<lparr>shape = length c # sh, data = concat (map f c)\<rparr>"
  from assms(2) obtain a b sh' where sh: "sh = a # b # sh'"
    by (cases sh; cases "tl sh") auto
  have same: "map atleast_2d (map ?stack cs) = map ?stack cs"
    by (simp add: atleast_2d_def sh)
  obtain c cs' where cs: "cs = c # cs'" using assms(1) by (cases cs) auto
  have shapes: "sum_list (map (\<lambda>y. hd (shape y)) (map ?stack cs)) = length (concat cs)"
    by (simp add: length_concat comp_def)
  have dat: "concat (map data (map ?stack cs)) = concat (map f (concat cs))"
    by (simp add: comp_def concat_sections)
  have "np_concatenate (map ?stack cs)
      = Inr \<lparr>shape = sum_list (map (\<lambda>y. hd (shape y)) (map ?stack cs)) # sh,
              data = concat (map data (map ?stack cs))\<rparr>"
    unfolding cs by (simp add: list_all_iff)
  then have "np_concatenate (map ?stack cs)
      = Inr \<lparr>shape = length (concat cs) # sh, data = concat (map f (concat cs))\<rparr>"
    by (simp only: shapes dat)
  then show ?thesis
    by (simp only: np_vstack_def same)
qed

text \<open>
  Claim C3. On a non-empty batch whose coefficient arrays all have one shape \<open>P \<times> A\<close>, and
  for every positive number of processors, \<^verbatim>\<open>rcdt_parallel\<close> returns exactly what stacking
  the single-image transforms of the images (each offset by \<open>eps\<close>, as \<^verbatim>\<open>fun_rcdt_batch\<close>
  does) in input order returns: the array of shape \<open>(N, P, A)\<close> whose entries are those of
  the transforms, one image after the other. It uses \<open>min cpu_count N\<close> workers. In the
  signed variant \<^verbatim>\<open>rscdt_parallel\<close> is the sequential loop itself.
\<close>

theorem batch_transform_is_sequential:
  assumes ne: "X \<noteq> []" and cpu: "0 < cpu_count"
    and shp: "\<forall>I\<in>set X. shape (fun_rcdt_single forward st (add_scalar I eps)) = [P, A]"
  shows "rcdt_parallel forward cpu_count st X
           = np_array (map (\<lambda>I. fun_rcdt_single forward st (add_scalar I eps)) X)
       \<and> rcdt_parallel forward cpu_count st X
           = Inr \<lparr>shape = [length X, P, A],
                  data = concat (map (\<lambda>I. data (fun_rcdt_single forward st (add_scalar I eps))) X)\<rparr>
       \<and> rscdt_parallel forward' st' X'
           = np_array (map (\<lambda>I. fun_rscdt_single forward' st' (add_scalar I eps)) X')
       \<and> min cpu_count (length X) \<le> length X"
proof -
  let ?T = "\<lambda>I. fun_rcdt_single forward st (add_scalar I eps)"
  let ?n = "min cpu_count (length X)"
  let ?out = "\<lparr>shape = [length X, P, A], data = concat (map (\<lambda>I. data (?T I)) X)\<rparr>"
  have n: "0 < ?n" "?n \<le> length X" using ne cpu by simp_all
  from array_split_sections [OF n] obtain cs where
    split: "array_split X ?n = Inr cs" and cat: "concat cs = X"
    and len: "length cs = ?n" and nonempty: "\<forall>c\<in>set cs. c \<noteq> []"
    by blast
  have cs_ne: "cs \<noteq> []" using len ne cpu by (auto simp: min_def split: if_splits)
  have all: "\<forall>y\<in>set (concat cs). shape (?T y) = [P, A]" using shp cat by simp
  have col: "collect (map (fun_rcdt_batch forward st) cs)
      = Inr (map (\<lambda>c. \<lparr>shape = length c # [P, A], data = concat (map (\<lambda>y. data (?T y)) c)\<rparr>) cs)"
    using collect_sections [OF nonempty all] by (simp add: fun_rcdt_batch_def [abs_def])
  have vs: "np_vstack (map (\<lambda>c. \<lparr>shape = length c # [P, A], data = concat (map (\<lambda>y. data (?T y)) c)\<rparr>) cs)
      = Inr ?out"
    using np_vstack_sections [OF cs_ne, of "[P, A]" "\<lambda>y. data (?T y)"] cat by simp
  have par: "rcdt_parallel forward cpu_count st X = Inr ?out"
    using split n(1) col vs by (simp add: rcdt_parallel_def Let_def)
  have seq: "np_array (map ?T X) = Inr ?out"
    using np_array_uniform [OF ne shp] by simp
  show ?thesis
    using par seq by (simp add: rscdt_parallel_def fun_rscdt_batch_def)
qed

theorem batch_transform_is_sequential_witness:
  "rcdt_parallel image_as_coefficients 2 (init 1 [0, 90] False) two_images = Inr two_features
   \<and> np_array (map (\<lambda>I. fun_rcdt_single image_as_coefficients (init 1 [0, 90] False)
                           (add_scalar I eps)) two_images) = Inr two_features"
proof -
  have shp: "\<forall>I\<in>set two_images.
      shape (fun_rcdt_single image_as_coefficients (init 1 [0, 90] False) (add_scalar I eps)) = [1, 2]"
    by (simp add: two_images_def fun_rcdt_single_def image_as_coefficients_def rcdt_call_def
        add_scalar_def div_scalar_def Let_def)
  have ne: "two_images \<noteq> []" by (simp add: two_images_def)
  have seq: "np_array (map (\<lambda>I. fun_rcdt_single image_as_coefficients (init 1 [0, 90] False)
                           (add_scalar I eps)) two_images) = Inr two_features"
    by (simp add: fun_rcdt_single_def rcdt_call_def image_as_coefficients_def two_images_def
        add_scalar_def div_scalar_def np_sum_def eps_def Let_def two_features_def)
  have "rcdt_parallel image_as_coefficients 2 (init 1 [0, 90] False) two_images
      = np_array (map (\<lambda>I. fun_rcdt_single image_as_coefficients (init 1 [0, 90] False)
                           (add_scalar I eps)) two_images)"
    using batch_transform_is_sequential
            [OF ne _ shp, where cpu_count = 2 and forward' = image_as_signed_coefficients
               and st' = "init 1 [0, 90] False" and X' = two_images]
    by simp
  with seq show ?thesis by simp
qed

subsection \<open>Prediction\<close>

lemma nth_concat_rows:
  "\<forall>x\<in>set xs. length x = n \<Longrightarrow> i < length xs \<Longrightarrow> j < n \<Longrightarrow> concat xs ! (i * n + j) = xs ! i ! j"
proof (induction xs arbitrary: i)
  case Nil
  then show ?case by simp
next
  case (Cons x xs)
  have len: "length x = n" using Cons.prems(1) by simp
  show ?case
  proof (cases i)
    case 0
    then show ?thesis using len Cons.prems(3) by (simp add: nth_append)
  next
    case (Suc i')
    with Cons.prems have "concat xs ! (i' * n + j) = xs ! i' ! j"
      by (intro Cons.IH) simp_all
    moreover have "Suc i' * n + j = length x + (i' * n + j)" using len by simp
    ultimately show ?thesis using Suc len by (simp add: nth_append)
  qed
qed

lemma at2_table2: "i < m \<Longrightarrow> j < n \<Longrightarrow> at2 (table2 m n f) i j = f i j"
  using nth_concat_rows [of "map (\<lambda>i. map (f i) [0..<n]) [0..<m]" n i j]
  by (simp add: at2_def table2_def)

lemma shape_table2: "shape (table2 m n f) = [m, n]"
  by (simp add: table2_def)

lemma sum_list_upt: "sum_list (map f [0..<n]) = (\<Sum>k<n. f k)"
  by (simp add: interv_sum_list_conv_sum_set_nat atLeast0LessThan)

lemma argmin_scan_least:
  assumes "i = length pre" and "best < i" and "v = (pre @ xs) ! best"
    and "\<forall>k<i. v \<le> (pre @ xs) ! k" and "\<forall>k<best. v < (pre @ xs) ! k"
  shows "argmin_scan best v i xs < length (pre @ xs)
       \<and> (\<forall>k<length (pre @ xs). (pre @ xs) ! argmin_scan best v i xs \<le> (pre @ xs) ! k)
       \<and> (\<forall>k<argmin_scan best v i xs. (pre @ xs) ! argmin_scan best v i xs < (pre @ xs) ! k)"
  using assms
proof (induction xs arbitrary: best v i pre)
  case Nil
  then show ?case by simp
next
  case (Cons x xs)
  let ?ys = "pre @ x # xs"
  have ys: "(pre @ [x]) @ xs = ?ys" by simp
  have xi: "?ys ! i = x" using Cons.prems(1) by simp
  show ?case
  proof (cases "x < v")
    case True
    have "argmin_scan i x (Suc i) xs < length ((pre @ [x]) @ xs)
       \<and> (\<forall>k<length ((pre @ [x]) @ xs).
             ((pre @ [x]) @ xs) ! argmin_scan i x (Suc i) xs \<le> ((pre @ [x]) @ xs) ! k)
       \<and> (\<forall>k<argmin_scan i x (Suc i) xs.
             ((pre @ [x]) @ xs) ! argmin_scan i x (Suc i) xs < ((pre @ [x]) @ xs) ! k)"
    proof (rule Cons.IH)
      show "Suc i = length (pre @ [x])" using Cons.prems(1) by simp
      show "i < Suc i" by simp
      show "x = ((pre @ [x]) @ xs) ! i" using xi by simp
      show "\<forall>k<Suc i. x \<le> ((pre @ [x]) @ xs) ! k"
      proof (intro allI impI)
        fix k assume "k < Suc i"
        then consider "k < i" | "k = i" by linarith
        then show "x \<le> ((pre @ [x]) @ xs) ! k"
        proof cases
          case 1
          with Cons.prems(4) have "v \<le> ?ys ! k" by simp
          with True show ?thesis by simp
        next
          case 2
          with xi show ?thesis by simp
        qed
      qed
      show "\<forall>k<i. x < ((pre @ [x]) @ xs) ! k"
      proof (intro allI impI)
        fix k assume "k < i"
        with Cons.prems(4) have "v \<le> ?ys ! k" by simp
        with True show "x < ((pre @ [x]) @ xs) ! k" by simp
      qed
    qed
    with True show ?thesis by simp
  next
    case False
    have "argmin_scan best v (Suc i) xs < length ((pre @ [x]) @ xs)
       \<and> (\<forall>k<length ((pre @ [x]) @ xs).
             ((pre @ [x]) @ xs) ! argmin_scan best v (Suc i) xs \<le> ((pre @ [x]) @ xs) ! k)
       \<and> (\<forall>k<argmin_scan best v (Suc i) xs.
             ((pre @ [x]) @ xs) ! argmin_scan best v (Suc i) xs < ((pre @ [x]) @ xs) ! k)"
    proof (rule Cons.IH)
      show "Suc i = length (pre @ [x])" using Cons.prems(1) by simp
      show "best < Suc i" using Cons.prems(2) by simp
      show "v = ((pre @ [x]) @ xs) ! best" using Cons.prems(3) by simp
      show "\<forall>k<Suc i. v \<le> ((pre @ [x]) @ xs) ! k"
      proof (intro allI impI)
        fix k assume "k < Suc i"
        then consider "k < i" | "k = i" by linarith
        then show "v \<le> ((pre @ [x]) @ xs) ! k"
        proof cases
          case 1
          with Cons.prems(4) show ?thesis by simp
        next
          case 2
          with xi False show ?thesis by simp
        qed
      qed
      show "\<forall>k<best. v < ((pre @ [x]) @ xs) ! k" using Cons.prems(5) by simp
    qed
    with False show ?thesis by simp
  qed
qed

lemma np_argmin_least:
  assumes "xs \<noteq> []"
  shows "np_argmin xs < length xs \<and> (\<forall>k<length xs. xs ! np_argmin xs \<le> xs ! k)
       \<and> (\<forall>k<np_argmin xs. xs ! np_argmin xs < xs ! k)"
proof -
  from assms obtain x xs' where xs: "xs = x # xs'" by (cases xs) auto
  have "argmin_scan 0 x 1 xs' < length ([x] @ xs')
       \<and> (\<forall>k<length ([x] @ xs'). ([x] @ xs') ! argmin_scan 0 x 1 xs' \<le> ([x] @ xs') ! k)
       \<and> (\<forall>k<argmin_scan 0 x 1 xs'. ([x] @ xs') ! argmin_scan 0 x 1 xs' < ([x] @ xs') ! k)"
    by (rule argmin_scan_least) simp_all
  then show ?thesis by (simp add: xs)
qed

lemma collect_map_Inr:
  "\<forall>x\<in>set xs. f x = Inr (g x) \<Longrightarrow> collect (map f xs) = Inr (map g xs)"
  by (induction xs) simp_all

lemma length_table2: "length (data (table2 m n f)) = m * n"
  by (induction m) (simp_all add: table2_def)

lemma flat_index_bound: "i < m \<Longrightarrow> j < n \<Longrightarrow> i * n + j < m * (n::nat)"
proof -
  assume "i < m" and "j < n"
  then have "i * n + j < Suc i * n" by simp
  also have "\<dots> \<le> m * n" using \<open>i < m\<close> by (intro mult_le_mono1) simp
  finally show ?thesis .
qed

lemma at2_slice_rows:
  assumes "shape B0 = [Rk, F]" and "r < min l Rk" and "j < F"
  shows "at2 \<lparr>shape = [min l Rk, F], data = take (min l Rk * F) (data B0)\<rparr> r j = at2 B0 r j"
  using flat_index_bound [OF assms(2,3)] assms(1) by (simp add: at2_def)

lemma at2_nd_sub:
  assumes "shape a = [m, n]" and "shape b = [m, n]"
    and "length (data a) = m * n" and "length (data b) = m * n" and "i < m" and "j < n"
  shows "at2 \<lparr>shape = [m, n], data = map (\<lambda>(x, y). x - y) (zip (data a) (data b))\<rparr> i j
       = at2 a i j - at2 b i j"
  using flat_index_bound [OF assms(5,6)] assms(1-4) by (simp add: at2_def)

lemma class_residual_steps:
  assumes "k < length (subspaces st)" and "length (shape (subspaces st ! k)) = 2"
    and "slice_rows (subspaces st ! k) (len_subspace st) = Inr basis"
    and "matmul X (transpose2 basis) = Inr proj" and "matmul proj basis = Inr projR"
    and "nd_sub projR X = Inr diff"
  shows "class_residual st X k = Inr (norm_axis1 diff)"
  using assms by (simp add: class_residual_def)

lemma class_residual_spec:
  assumes X: "shape X = [m, F]" and wfX: "wf_nd X"
    and k: "k < length (subspaces st)"
    and B: "shape (subspaces st ! k) = [Rk, F]"
  shows "class_residual st X k
       = Inr (map (spec_residual X (subspaces st ! k) (rows_used st k)) [0..<m])"
proof -
  let ?stored = "subspaces st ! k"
  let ?R = "min (len_subspace st) Rk"
  let ?B = "\<lparr>shape = [?R, F], data = take (?R * F) (data ?stored)\<rparr>"
  let ?Bt = "transpose2 ?B"
  let ?proj = "table2 m ?R (\<lambda>i r. sum_list (map (\<lambda>l. at2 X i l * at2 ?Bt l r) [0..<F]))"
  let ?projR = "table2 m F (\<lambda>i j. sum_list (map (\<lambda>r. at2 ?proj i r * at2 ?B r j) [0..<?R]))"
  let ?diff = "\<lparr>shape = [m, F], data = map (\<lambda>(x, y). x - y) (zip (data ?projR) (data X))\<rparr>"
  have R: "rows_used st k = ?R" using B by (simp add: rows_used_def)
  have slice: "slice_rows ?stored (len_subspace st) = Inr ?B"
    using B by (simp add: slice_rows_def)
  have Bt: "?Bt = table2 F ?R (\<lambda>j i. at2 ?B i j)"
    by (simp add: transpose2_def)
  have mm1: "matmul X ?Bt = Inr ?proj"
    using X by (simp add: matmul_def Bt shape_table2)
  have mm2: "matmul ?proj ?B = Inr ?projR"
    by (simp add: matmul_def shape_table2)
  have sub: "nd_sub ?projR X = Inr ?diff"
    using X by (simp add: nd_sub_def shape_table2)
  have g2: "length (shape ?stored) = 2" using B by simp
  have res: "class_residual st X k = Inr (norm_axis1 ?diff)"
    by (rule class_residual_steps [OF k g2 slice mm1 mm2 sub])
  have lenX: "length (data X) = m * F" using wfX X by (simp add: wf_nd_def)
  have entry: "at2 ?diff i j
      = (\<Sum>r<?R. (\<Sum>l<F. at2 X i l * at2 ?stored r l) * at2 ?stored r j) - at2 X i j"
    if i: "i < m" and j: "j < F" for i j
  proof -
    have "at2 ?diff i j = at2 ?projR i j - at2 X i j"
      using at2_nd_sub [OF shape_table2 X length_table2 lenX i j] by simp
    also have "at2 ?projR i j = (\<Sum>r<?R. at2 ?proj i r * at2 ?B r j)"
      using i j by (simp add: at2_table2 sum_list_upt)
    also have "\<dots> = (\<Sum>r<?R. (\<Sum>l<F. at2 X i l * at2 ?stored r l) * at2 ?stored r j)"
    proof (rule sum.cong [OF refl])
      fix r assume "r \<in> {..<?R}"
      then have r: "r < ?R" by simp
      have "at2 ?proj i r = (\<Sum>l<F. at2 X i l * at2 ?Bt l r)"
        using i r by (simp add: at2_table2 sum_list_upt)
      also have "\<dots> = (\<Sum>l<F. at2 X i l * at2 ?stored r l)"
      proof (rule sum.cong [OF refl])
        fix l assume "l \<in> {..<F}"
        then have l: "l < F" by simp
        have "at2 ?Bt l r = at2 ?B r l"
          using l r unfolding Bt by (simp add: at2_table2)
        also have "\<dots> = at2 ?stored r l" by (rule at2_slice_rows [OF B r l])
        finally show "at2 X i l * at2 ?Bt l r = at2 X i l * at2 ?stored r l" by simp
      qed
      finally have p: "at2 ?proj i r = (\<Sum>l<F. at2 X i l * at2 ?stored r l)" .
      have "at2 ?B r j = at2 ?stored r j" by (rule at2_slice_rows [OF B r j])
      with p show "at2 ?proj i r * at2 ?B r j
          = (\<Sum>l<F. at2 X i l * at2 ?stored r l) * at2 ?stored r j" by simp
    qed
    finally show ?thesis .
  qed
  have "norm_axis1 ?diff = map (spec_residual X ?stored ?R) [0..<m]"
  proof -
    have "sqrt (sum_list (map (\<lambda>j. (at2 ?diff i j)\<^sup>2) [0..<F])) = spec_residual X ?stored ?R i"
      if "i \<in> set [0..<m]" for i
    proof -
      from that have i: "i < m" by simp
      have "sum_list (map (\<lambda>j. (at2 ?diff i j)\<^sup>2) [0..<F]) = (\<Sum>j<F. (at2 ?diff i j)\<^sup>2)"
        by (rule sum_list_upt)
      also have "\<dots> = (\<Sum>j<F.
          ((\<Sum>r<?R. (\<Sum>l<F. at2 X i l * at2 ?stored r l) * at2 ?stored r j) - at2 X i j)\<^sup>2)"
        by (rule sum.cong [OF refl]) (simp add: entry [OF i])
      finally show ?thesis using X by (simp add: spec_residual_def)
    qed
    then show ?thesis
      by (simp add: norm_axis1_def)
  qed
  with res R show ?thesis by simp
qed

lemma flat_three_samples:
  "reshape_rows three_samples = Inr \<lparr>shape = [3, 2], data = [1, 0, 0, 1, 1, 1]\<rparr>"
  by (simp add: reshape_rows_def three_samples_def)

lemma residual_axis0:
  "class_residual two_axes \<lparr>shape = [3, 2], data = [1, 0, 0, 1, 1, 1]\<rparr> 0 = Inr [0, 1, 1]"
  by (simp add: class_residual_def two_axes_def slice_rows_def matmul_def transpose2_def
      table2_def nd_sub_def norm_axis1_def at2_def upt_conv_Cons)

lemma residual_axis1:
  "class_residual two_axes \<lparr>shape = [3, 2], data = [1, 0, 0, 1, 1, 1]\<rparr> (Suc 0) = Inr [1, 0, 1]"
  by (simp add: class_residual_def two_axes_def slice_rows_def matmul_def transpose2_def
      table2_def nd_sub_def norm_axis1_def at2_def upt_conv_Cons)

lemma predict_three_samples: "predict_core two_axes three_samples = Inr [0, 1, 0]"
proof -
  have cr: "class_range two_axes = [0, Suc 0]"
    by (simp add: class_range_def two_axes_def upt_conv_Cons)
  show ?thesis
    unfolding predict_core_def flat_three_samples cr
    by (simp add: residual_axis0 residual_axis1 upt_conv_Cons)
qed

text \<open>
  Over the reals: on a batch of \<open>m > 0\<close> coefficient arrays and a classifier with at least
  one class, a stored basis for every class and every basis a matrix with as many columns
  as a flattened sample has entries, the label of sample \<open>i\<close> is a class index whose exact
  residual, the norm of \<open>X\<^sub>i \<cdot> B\<^sup>T \<cdot> B - X\<^sub>i\<close> with \<open>B\<close> the first \<open>len_subspace\<close> rows of the
  class's basis, is minimal among all classes, and every smaller class index has a strictly
  larger exact residual.
\<close>

lemma exact_predict_returns_nearest_subspace:
  assumes Xf: "shape Xf = m # sh" and m: "0 < m" and wf: "wf_nd Xf"
    and nc: "0 < num_classes st" and stored: "nat (num_classes st) \<le> length (subspaces st)"
    and bases: "\<forall>k<nat (num_classes st). \<exists>Rk. shape (subspaces st ! k) = [Rk, prod_list sh]"
  shows "\<exists>X preds. reshape_rows Xf = Inr X \<and> shape X = [m, prod_list sh] \<and> data X = data Xf
       \<and> predict_core st Xf = Inr preds \<and> length preds = m
       \<and> (\<forall>i<m. preds ! i < nat (num_classes st)
             \<and> (\<forall>k<nat (num_classes st).
                   spec_residual X (subspaces st ! (preds ! i)) (rows_used st (preds ! i)) i
                     \<le> spec_residual X (subspaces st ! k) (rows_used st k) i)
             \<and> (\<forall>k<preds ! i.
                   spec_residual X (subspaces st ! (preds ! i)) (rows_used st (preds ! i)) i
                     < spec_residual X (subspaces st ! k) (rows_used st k) i))"
proof -
  let ?F = "prod_list sh"
  let ?K = "nat (num_classes st)"
  let ?X = "\<lparr>shape = [m, ?F], data = data Xf\<rparr>"
  let ?g = "\<lambda>k. map (spec_residual ?X (subspaces st ! k) (rows_used st k)) [0..<m]"
  let ?D = "map ?g [0..<?K]"
  let ?preds = "map (\<lambda>i. np_argmin (map (\<lambda>d. d ! i) ?D)) [0..<m]"
  have K: "0 < ?K" using nc by simp
  have flat: "reshape_rows Xf = Inr ?X"
    using Xf m by (simp add: reshape_rows_def)
  have shX: "shape ?X = [m, ?F]" by simp
  have wfX: "wf_nd ?X" using wf Xf by (simp add: wf_nd_def)
  have res: "class_residual st ?X k = Inr (?g k)" if "k \<in> set [0..<?K]" for k
  proof -
    from that have k: "k < ?K" by simp
    with bases obtain Rk where "shape (subspaces st ! k) = [Rk, ?F]" by blast
    moreover have "k < length (subspaces st)" using k stored by simp
    ultimately show ?thesis
      using class_residual_spec [OF shX wfX] by blast
  qed
  have col: "collect (map (class_residual st ?X) (class_range st)) = Inr ?D"
    unfolding class_range_def by (rule collect_map_Inr) (simp add: res)
  have Dne: "?D \<noteq> []" using K by simp
  have core: "predict_core st Xf = Inr ?preds"
    using Dne unfolding predict_core_def by (simp only: flat col sum.case) simp
  have best: "?preds ! i < ?K
       \<and> (\<forall>k<?K. spec_residual ?X (subspaces st ! (?preds ! i)) (rows_used st (?preds ! i)) i
                     \<le> spec_residual ?X (subspaces st ! k) (rows_used st k) i)
       \<and> (\<forall>k<?preds ! i.
              spec_residual ?X (subspaces st ! (?preds ! i)) (rows_used st (?preds ! i)) i
                < spec_residual ?X (subspaces st ! k) (rows_used st k) i)"
    if i: "i < m" for i
  proof -
    let ?col = "map (\<lambda>k. spec_residual ?X (subspaces st ! k) (rows_used st k) i) [0..<?K]"
    have c: "map (\<lambda>d. d ! i) ?D = ?col" using i by simp
    have "?preds ! i = np_argmin (map (\<lambda>d. d ! i) ?D)"
      using i by (simp del: map_map)
    then have p: "?preds ! i = np_argmin ?col" by (simp only: c)
    have ne: "?col \<noteq> []" using K by simp
    define a where "a = np_argmin ?col"
    have lc: "length ?col = ?K" by simp
    have nthc: "?col ! k = spec_residual ?X (subspaces st ! k) (rows_used st k) i"
      if "k < ?K" for k
      using that by simp
    from np_argmin_least [OF ne] have
      a1: "a < length ?col" and a2: "\<forall>k<length ?col. ?col ! a \<le> ?col ! k"
      and a3: "\<forall>k<a. ?col ! a < ?col ! k"
      unfolding a_def by blast+
    have aK: "a < ?K" using a1 lc by simp
    have le: "spec_residual ?X (subspaces st ! a) (rows_used st a) i
                \<le> spec_residual ?X (subspaces st ! k) (rows_used st k) i" if "k < ?K" for k
    proof -
      from a2 that lc have "?col ! a \<le> ?col ! k" by simp
      then show ?thesis by (simp only: nthc [OF aK] nthc [OF that])
    qed
    have lt: "spec_residual ?X (subspaces st ! a) (rows_used st a) i
                < spec_residual ?X (subspaces st ! k) (rows_used st k) i" if "k < a" for k
    proof -
      from that aK have kK: "k < ?K" by simp
      from a3 that have "?col ! a < ?col ! k" by simp
      then show ?thesis by (simp only: nthc [OF aK] nthc [OF kK])
    qed
    show ?thesis
      unfolding p a_def [symmetric] using aK le lt by blast
  qed
  have len: "length ?preds = m" by simp
  have "reshape_rows Xf = Inr ?X \<and> shape ?X = [m, ?F] \<and> data ?X = data Xf
       \<and> predict_core st Xf = Inr ?preds \<and> length ?preds = m
       \<and> (\<forall>i<m. ?preds ! i < ?K
             \<and> (\<forall>k<?K. spec_residual ?X (subspaces st ! (?preds ! i)) (rows_used st (?preds ! i)) i
                     \<le> spec_residual ?X (subspaces st ! k) (rows_used st k) i)
             \<and> (\<forall>k<?preds ! i.
                   spec_residual ?X (subspaces st ! (?preds ! i)) (rows_used st (?preds ! i)) i
                     < spec_residual ?X (subspaces st ! k) (rows_used st k) i))"
    using flat core len best
    by (simp del: length_map nth_map map_map)
  then show ?thesis by blast
qed

subsection \<open>Prediction in binary64\<close>



lemma fge_trans:
  assumes "a \<noteq> NaN" and "b \<noteq> NaN" and "c \<noteq> NaN" and "fge a b" and "fge b c"
  shows "fge a c"
  using assms by (cases a; cases b; cases c) simp_all

lemma fge_strict_trans:
  assumes "a \<noteq> NaN" and "b \<noteq> NaN" and "c \<noteq> NaN" and "\<not> fge a b" and "\<not> fge b c"
  shows "\<not> fge a c"
  using assms by (cases a; cases b; cases c) simp_all

































end
